theory Spec2Isabelle
  imports Main "HOL-Library.Word"
begin

unbundle bit_operations_syntax

section \<open>The AST store (src/ast.c)\<close>

subsection \<open>Schema table\<close>

text \<open>
  \<^verbatim>\<open>struct ast_node_def { name, has_varint, has_inlined, num_skips, num_subtrees }\<close>.
  The table is indexed by tag; \<^verbatim>\<open>AST_MAX_TAG == ARRAY_SIZE(ast_node_defs)\<close> is a static
  assertion of the source, so the enumeration order of the tags is the order of the table.
\<close>

record ast_node_def =
  name :: string
  has_varint :: bool
  has_inlined :: bool
  num_skips :: nat
  num_subtrees :: nat

definition AST_ENTRY :: "string \<Rightarrow> nat \<Rightarrow> nat \<Rightarrow> nat \<Rightarrow> nat \<Rightarrow> ast_node_def" where
  "AST_ENTRY a b c d e =
     \<lparr>name = a, has_varint = (b \<noteq> 0), has_inlined = (c \<noteq> 0), num_skips = d, num_subtrees = e\<rparr>"

definition ast_node_defs :: "ast_node_def list" where
  "ast_node_defs =
    [AST_ENTRY ''NOP'' 0 0 0 0,
     AST_ENTRY ''SCRIPT'' 0 0 2 0,
     AST_ENTRY ''VAR'' 0 0 2 0,
     AST_ENTRY ''VAR_DECL'' 1 1 0 1,
     AST_ENTRY ''FUNC_DECL'' 1 1 0 1,
     AST_ENTRY ''IF'' 0 0 2 1,
     AST_ENTRY ''FUNC'' 0 0 3 1,
     AST_ENTRY ''ASSIGN'' 0 0 0 2,
     AST_ENTRY ''REM_ASSIGN'' 0 0 0 2,
     AST_ENTRY ''MUL_ASSIGN'' 0 0 0 2,
     AST_ENTRY ''DIV_ASSIGN'' 0 0 0 2,
     AST_ENTRY ''XOR_ASSIGN'' 0 0 0 2,
     AST_ENTRY ''PLUS_ASSIGN'' 0 0 0 2,
     AST_ENTRY ''MINUS_ASSIGN'' 0 0 0 2,
     AST_ENTRY ''OR_ASSIGN'' 0 0 0 2,
     AST_ENTRY ''AND_ASSIGN'' 0 0 0 2,
     AST_ENTRY ''LSHIFT_ASSIGN'' 0 0 0 2,
     AST_ENTRY ''RSHIFT_ASSIGN'' 0 0 0 2,
     AST_ENTRY ''URSHIFT_ASSIGN'' 0 0 0 2,
     AST_ENTRY ''NUM'' 1 1 0 0,
     AST_ENTRY ''IDENT'' 1 1 0 0,
     AST_ENTRY ''STRING'' 1 1 0 0,
     AST_ENTRY ''REGEX'' 1 1 0 0,
     AST_ENTRY ''LABEL'' 1 1 0 0,
     AST_ENTRY ''SEQ'' 0 0 1 0,
     AST_ENTRY ''WHILE'' 0 0 1 1,
     AST_ENTRY ''DOWHILE'' 0 0 2 0,
     AST_ENTRY ''FOR'' 0 0 2 3,
     AST_ENTRY ''FOR_IN'' 0 0 2 3,
     AST_ENTRY ''COND'' 0 0 0 3,
     AST_ENTRY ''DEBUGGER'' 0 0 0 0,
     AST_ENTRY ''BREAK'' 0 0 0 0,
     AST_ENTRY ''LAB_BREAK'' 0 0 0 1,
     AST_ENTRY ''CONTINUE'' 0 0 0 0,
     AST_ENTRY ''LAB_CONTINUE'' 0 0 0 1,
     AST_ENTRY ''RETURN'' 0 0 0 0,
     AST_ENTRY ''VAL_RETURN'' 0 0 0 1,
     AST_ENTRY ''THROW'' 0 0 0 1,
     AST_ENTRY ''TRY'' 0 0 3 1,
     AST_ENTRY ''SWITCH'' 0 0 2 1,
     AST_ENTRY ''CASE'' 0 0 1 1,
     AST_ENTRY ''DEFAULT'' 0 0 1 0,
     AST_ENTRY ''WITH'' 0 0 1 1,
     AST_ENTRY ''LOG_OR'' 0 0 0 2,
     AST_ENTRY ''LOG_AND'' 0 0 0 2,
     AST_ENTRY ''OR'' 0 0 0 2,
     AST_ENTRY ''XOR'' 0 0 0 2,
     AST_ENTRY ''AND'' 0 0 0 2,
     AST_ENTRY ''EQ'' 0 0 0 2,
     AST_ENTRY ''EQ_EQ'' 0 0 0 2,
     AST_ENTRY ''NE'' 0 0 0 2,
     AST_ENTRY ''NE_NE'' 0 0 0 2,
     AST_ENTRY ''LE'' 0 0 0 2,
     AST_ENTRY ''LT'' 0 0 0 2,
     AST_ENTRY ''GE'' 0 0 0 2,
     AST_ENTRY ''GT'' 0 0 0 2,
     AST_ENTRY ''IN'' 0 0 0 2,
     AST_ENTRY ''INSTANCEOF'' 0 0 0 2,
     AST_ENTRY ''LSHIFT'' 0 0 0 2,
     AST_ENTRY ''RSHIFT'' 0 0 0 2,
     AST_ENTRY ''URSHIFT'' 0 0 0 2,
     AST_ENTRY ''ADD'' 0 0 0 2,
     AST_ENTRY ''SUB'' 0 0 0 2,
     AST_ENTRY ''REM'' 0 0 0 2,
     AST_ENTRY ''MUL'' 0 0 0 2,
     AST_ENTRY ''DIV'' 0 0 0 2,
     AST_ENTRY ''POS'' 0 0 0 1,
     AST_ENTRY ''NEG'' 0 0 0 1,
     AST_ENTRY ''NOT'' 0 0 0 1,
     AST_ENTRY ''LOGICAL_NOT'' 0 0 0 1,
     AST_ENTRY ''VOID'' 0 0 0 1,
     AST_ENTRY ''DELETE'' 0 0 0 1,
     AST_ENTRY ''TYPEOF'' 0 0 0 1,
     AST_ENTRY ''PREINC'' 0 0 0 1,
     AST_ENTRY ''PREDEC'' 0 0 0 1,
     AST_ENTRY ''POSTINC'' 0 0 0 1,
     AST_ENTRY ''POSTDEC'' 0 0 0 1,
     AST_ENTRY ''MEMBER'' 1 1 0 1,
     AST_ENTRY ''INDEX'' 0 0 0 2,
     AST_ENTRY ''CALL'' 0 0 1 1,
     AST_ENTRY ''NEW'' 0 0 1 1,
     AST_ENTRY ''ARRAY'' 0 0 1 0,
     AST_ENTRY ''OBJECT'' 0 0 1 0,
     AST_ENTRY ''PROP'' 1 1 0 1,
     AST_ENTRY ''GETTER'' 0 0 0 1,
     AST_ENTRY ''SETTER'' 0 0 0 1,
     AST_ENTRY ''THIS'' 0 0 0 0,
     AST_ENTRY ''TRUE'' 0 0 0 0,
     AST_ENTRY ''FALSE'' 0 0 0 0,
     AST_ENTRY ''NULL'' 0 0 0 0,
     AST_ENTRY ''UNDEF'' 0 0 0 0,
     AST_ENTRY ''USE_STRICT'' 0 0 0 0]"

definition AST_MAX_TAG :: nat where
  "AST_MAX_TAG = length ast_node_defs"

text \<open>A few tags by name (their position in the table) and the skip slots.\<close>

definition AST_NOP :: nat where "AST_NOP = 0"
definition AST_SCRIPT :: nat where "AST_SCRIPT = 1"
definition AST_VAR_DECL :: nat where "AST_VAR_DECL = 3"
definition AST_IF :: nat where "AST_IF = 5"
definition AST_FUNC :: nat where "AST_FUNC = 6"
definition AST_IDENT :: nat where "AST_IDENT = 20"
definition AST_SEQ :: nat where "AST_SEQ = 24"
definition AST_RETURN :: nat where "AST_RETURN = 35"
definition AST_CALL :: nat where "AST_CALL = 79"

definition AST_END_SKIP :: nat where "AST_END_SKIP = 0"

subsection \<open>Buffer and errors\<close>

text \<open>
  The buffer \<^verbatim>\<open>a->mbuf\<close> is the list of its \<^verbatim>\<open>len\<close> bytes. A failed \<^verbatim>\<open>assert\<close> and an
  access outside the buffer or outside the schema table are results of their own.
\<close>

type_synonym mbuf = "8 word list"

datatype error = AssertionFailed | OutOfBounds

definition bind_res :: "error + 'a \<Rightarrow> ('a \<Rightarrow> error + 'b) \<Rightarrow> error + 'b" where
  "bind_res r f = (case r of Inl e \<Rightarrow> Inl e | Inr x \<Rightarrow> f x)"

text \<open>
  Modelled from the spec: \<^verbatim>\<open>mbuf_append\<close> and \<^verbatim>\<open>mbuf_insert\<close> (the byte buffer is not part
  of the sources at hand). The spec's buffer is a contiguous growable byte sequence with
  append and insert at a position; a \<^verbatim>\<open>NULL\<close> source of \<open>n\<close> bytes stands for \<open>n\<close> zero
  bytes (``then \<open>num_skips \<times> 2\<close> zero bytes'').
\<close>

definition mbuf_append :: "mbuf \<Rightarrow> 8 word list \<Rightarrow> mbuf" where
  "mbuf_append a bs = a @ bs"

definition mbuf_insert :: "mbuf \<Rightarrow> nat \<Rightarrow> 8 word list \<Rightarrow> error + mbuf" where
  "mbuf_insert a off bs =
     (if off \<le> length a then Inr (take off a @ bs @ drop off a) else Inl OutOfBounds)"

text \<open>
  Modelled from the spec: the varint helpers \<^verbatim>\<open>decode_varint\<close> and \<^verbatim>\<open>embed_string\<close>
  (``LEB128-style unsigned'', ``embed a varint-prefixed raw byte payload''): seven bits per
  byte, least significant group first, the top bit set on every byte but the last.
  \<open>decode_varint\<close> returns the value and the number of bytes read, or \<open>None\<close> when the
  bytes end inside the number.
\<close>

fun decode_varint :: "8 word list \<Rightarrow> (nat \<times> nat) option" where
  "decode_varint [] = None"
| "decode_varint (b # bs) =
     (if unat b < 128 then Some (unat b, 1)
      else (case decode_varint bs of
              None \<Rightarrow> None
            | Some (v, llen) \<Rightarrow> Some (unat b mod 128 + 128 * v, llen + 1)))"

function encode_varint :: "nat \<Rightarrow> 8 word list" where
  "encode_varint n =
     (if n < 128 then [of_nat n] else of_nat (n mod 128 + 128) # encode_varint (n div 128))"
  by pat_completeness auto
termination
  by (relation "measure id") auto

definition embed_string :: "mbuf \<Rightarrow> nat \<Rightarrow> 8 word list \<Rightarrow> error + mbuf" where
  "embed_string a off s = mbuf_insert a off (encode_varint (length s) @ s)"

subsection \<open>Writer\<close>

definition ast_add_node :: "mbuf \<Rightarrow> nat \<Rightarrow> error + (mbuf \<times> nat)" where
  "ast_add_node a tag =
     (let start = length a in
      if \<not> tag < AST_MAX_TAG then Inl AssertionFailed
      else
        let d = ast_node_defs ! tag;
            a1 = mbuf_append a [of_nat tag];
            a2 = mbuf_append a1 (replicate (2 * num_skips d) 0)
        in Inr (a2, start + 1))"

text \<open>
  \<^verbatim>\<open>ast_modify_skip\<close>: the tag is read at \<open>start - 1\<close>, its table entry is looked up, the
  only assertion is \<^verbatim>\<open>skip < def->num_skips\<close>, and \<^verbatim>\<open>uint16_t delta = where - start\<close>
  keeps the low 16 bits of the difference.
\<close>

definition ast_modify_skip :: "mbuf \<Rightarrow> nat \<Rightarrow> nat \<Rightarrow> nat \<Rightarrow> error + (mbuf \<times> nat)" where
  "ast_modify_skip a start wher skip =
     (let p = start + skip * 2;
          delta = (word_of_int (int wher - int start) :: 16 word)
      in
      if start = 0 \<or> \<not> start - 1 < length a then Inl OutOfBounds
      else
        let tag = unat (a ! (start - 1)) in
        if \<not> tag < AST_MAX_TAG then Inl OutOfBounds
        else if \<not> skip < num_skips (ast_node_defs ! tag) then Inl AssertionFailed
        else if \<not> p + 1 < length a then Inl OutOfBounds
        else Inr (a[p := ucast (drop_bit 8 delta), p + 1 := ucast (delta AND 0xff)], wher))"

definition ast_set_skip :: "mbuf \<Rightarrow> nat \<Rightarrow> nat \<Rightarrow> error + (mbuf \<times> nat)" where
  "ast_set_skip a start skip = ast_modify_skip a start (length a) skip"

definition ast_insert_node :: "mbuf \<Rightarrow> nat \<Rightarrow> nat \<Rightarrow> error + (mbuf \<times> nat)" where
  "ast_insert_node a start tag =
     (if \<not> tag < AST_MAX_TAG then Inl AssertionFailed
      else
        let d = ast_node_defs ! tag in
        bind_res (mbuf_insert a start (replicate (2 * num_skips d) 0)) (\<lambda>a1.
        bind_res (mbuf_insert a1 start [of_nat tag]) (\<lambda>a2.
        if num_skips d \<noteq> 0
        then bind_res (ast_set_skip a2 (start + 1) AST_END_SKIP) (\<lambda>(a3, _). Inr (a3, start + 1))
        else Inr (a2, start + 1))))"

definition ast_add_inlined_node :: "mbuf \<Rightarrow> nat \<Rightarrow> 8 word list \<Rightarrow> error + mbuf" where
  "ast_add_inlined_node a tag s =
     (if \<not> tag < AST_MAX_TAG then Inl OutOfBounds
      else if \<not> has_inlined (ast_node_defs ! tag) then Inl AssertionFailed
      else bind_res (ast_add_node a tag) (\<lambda>(a1, off). embed_string a1 off s))"

definition ast_insert_inlined_node :: "mbuf \<Rightarrow> nat \<Rightarrow> nat \<Rightarrow> 8 word list \<Rightarrow> error + mbuf" where
  "ast_insert_inlined_node a start tag s =
     (if \<not> tag < AST_MAX_TAG then Inl OutOfBounds
      else if \<not> has_inlined (ast_node_defs ! tag) then Inl AssertionFailed
      else bind_res (ast_insert_node a start tag) (\<lambda>(a1, off). embed_string a1 off s))"

subsection \<open>Reader\<close>

definition ast_get_skip :: "mbuf \<Rightarrow> nat \<Rightarrow> nat \<Rightarrow> error + nat" where
  "ast_get_skip a pos skip =
     (let p = pos + skip * 2 in
      if \<not> p < length a then Inl AssertionFailed
      else if \<not> p + 1 < length a then Inl OutOfBounds
      else Inr (pos + (unat (a ! (p + 1)) OR push_bit 8 (unat (a ! p)))))"

definition ast_fetch_tag :: "mbuf \<Rightarrow> nat \<Rightarrow> error + (nat \<times> nat)" where
  "ast_fetch_tag a pos =
     (if \<not> pos < length a then Inl AssertionFailed else Inr (unat (a ! pos), pos + 1))"

text \<open>
  \<^verbatim>\<open>ast_move_to_children\<close>: the varint is decoded at the cursor itself (right after the
  tag), and the width of the skip slots is added afterwards.
\<close>

definition ast_move_to_children :: "mbuf \<Rightarrow> nat \<Rightarrow> error + nat" where
  "ast_move_to_children a pos =
     (if pos = 0 \<or> \<not> pos - 1 < length a then Inl OutOfBounds
      else
        let tag = unat (a ! (pos - 1)) in
        if \<not> tag < AST_MAX_TAG then Inl OutOfBounds
        else
          let d = ast_node_defs ! tag in
          bind_res
            (if has_varint d
             then (case decode_varint (drop pos a) of
                     None \<Rightarrow> Inl OutOfBounds
                   | Some (slen, llen) \<Rightarrow>
                       Inr (if has_inlined d then pos + llen + slen else pos + llen))
             else Inr pos)
            (\<lambda>pos1. Inr (pos1 + num_skips d * 2)))"

text \<open>
  \<^verbatim>\<open>ast_skip_tree\<close> with its two loops. The recursion follows the bytes read, so it is
  bounded by fuel: \<open>None\<close> is ``not finished within the given number of calls''.
\<close>

fun ast_skip_tree :: "nat \<Rightarrow> mbuf \<Rightarrow> nat \<Rightarrow> (error + nat) option"
  and skip_subtrees :: "nat \<Rightarrow> mbuf \<Rightarrow> nat \<Rightarrow> nat \<Rightarrow> (error + nat) option"
  and skip_until :: "nat \<Rightarrow> mbuf \<Rightarrow> nat \<Rightarrow> nat \<Rightarrow> (error + nat) option"
where
  "ast_skip_tree 0 a pos = None"
| "ast_skip_tree (Suc n) a pos =
     (case ast_fetch_tag a pos of
        Inl e \<Rightarrow> Some (Inl e)
      | Inr (tag, skips) \<Rightarrow>
          (case ast_move_to_children a skips of
             Inl e \<Rightarrow> Some (Inl e)
           | Inr pos1 \<Rightarrow>
               (case skip_subtrees n a (num_subtrees (ast_node_defs ! tag)) pos1 of
                  None \<Rightarrow> None
                | Some (Inl e) \<Rightarrow> Some (Inl e)
                | Some (Inr pos2) \<Rightarrow>
                    if num_skips (ast_node_defs ! tag) \<noteq> 0
                    then (case ast_get_skip a skips AST_END_SKIP of
                            Inl e \<Rightarrow> Some (Inl e)
                          | Inr end \<Rightarrow> skip_until n a end pos2)
                    else Some (Inr pos2))))"
| "skip_subtrees n a 0 pos = Some (Inr pos)"
| "skip_subtrees 0 a (Suc i) pos = None"
| "skip_subtrees (Suc n) a (Suc i) pos =
     (case ast_skip_tree n a pos of
        None \<Rightarrow> None
      | Some (Inl e) \<Rightarrow> Some (Inl e)
      | Some (Inr pos1) \<Rightarrow> skip_subtrees n a i pos1)"
| "skip_until 0 a end pos = None"
| "skip_until (Suc n) a end pos =
     (if pos < end
      then (case ast_skip_tree n a pos of
              None \<Rightarrow> None
            | Some (Inl e) \<Rightarrow> Some (Inl e)
            | Some (Inr pos1) \<Rightarrow> skip_until n a end pos1)
      else Some (Inr pos))"

subsection \<open>The declared layout\<close>

text \<open>
  The spec's words for the reader (``skip the skip slots, varint length, and inline payload
  if any'', after the node layout ``tag; \<open>num_skips \<times> 2\<close> bytes; varint; payload''): the
  cursor first passes the skip slots and decodes the varint after them. It is compared
  with \<open>ast_move_to_children\<close> below.
\<close>

definition move_to_children_layout :: "mbuf \<Rightarrow> nat \<Rightarrow> error + nat" where
  "move_to_children_layout a pos =
     (if pos = 0 \<or> \<not> pos - 1 < length a then Inl OutOfBounds
      else
        let tag = unat (a ! (pos - 1)) in
        if \<not> tag < AST_MAX_TAG then Inl OutOfBounds
        else
          let d = ast_node_defs ! tag;
              pos1 = pos + num_skips d * 2
          in if has_varint d
             then (case decode_varint (drop pos1 a) of
                     None \<Rightarrow> Inl OutOfBounds
                   | Some (slen, llen) \<Rightarrow>
                       Inr (if has_inlined d then pos1 + llen + slen else pos1 + llen))
             else Inr pos1)"

text \<open>
  The bytes of a node header in that layout: a distance as two bytes, high byte first, and
  the \<open>n\<close> skip slots of a node whose first slot (\<^verbatim>\<open>END\<close>) holds the distance \<open>d\<close> and whose
  other slots are still zero.
\<close>

definition skip16 :: "nat \<Rightarrow> 8 word list" where
  "skip16 d = [of_nat (d div 256), of_nat d]"

definition hdr_slots :: "nat \<Rightarrow> nat \<Rightarrow> 8 word list" where
  "hdr_slots n d = (if n = 0 then [] else skip16 d @ replicate (2 * (n - 1)) 0)"

subsection \<open>Trees built with the writer\<close>

text \<open>
  How the parser uses the writer. A node is begun with \<^verbatim>\<open>ast_add_node\<close> and its children
  follow (\<open>Add\<close>); or some children are written first and the node is inserted in front
  of them with \<^verbatim>\<open>ast_insert_node\<close> at the offset where they start, further children
  following (\<open>Ins\<close>); or the node carries inline data and is written with
  \<^verbatim>\<open>ast_add_inlined_node\<close> (\<open>Inlined\<close>). A node with skips is closed with
  \<^verbatim>\<open>ast_set_skip(start, AST_END_SKIP)\<close> after its last child.
\<close>

datatype tree =
    Add nat "tree list"
  | Ins nat "tree list" "tree list"
  | Inlined nat "8 word list" "tree list"

definition close_node :: "mbuf \<Rightarrow> nat \<Rightarrow> nat \<Rightarrow> error + mbuf" where
  "close_node a start tag =
     (if num_skips (ast_node_defs ! tag) \<noteq> 0
      then bind_res (ast_set_skip a start AST_END_SKIP) (\<lambda>(a1, _). Inr a1)
      else Inr a)"

fun build :: "mbuf \<Rightarrow> tree \<Rightarrow> error + mbuf"
  and build_seq :: "mbuf \<Rightarrow> tree list \<Rightarrow> error + mbuf"
where
  "build a (Add tag kids) =
     bind_res (ast_add_node a tag) (\<lambda>(a1, start).
     bind_res (build_seq a1 kids) (\<lambda>a2. close_node a2 start tag))"
| "build a (Ins tag front back) =
     bind_res (build_seq a front) (\<lambda>a1.
     bind_res (ast_insert_node a1 (length a) tag) (\<lambda>(a2, start).
     bind_res (build_seq a2 back) (\<lambda>a3. close_node a3 start tag)))"
| "build a (Inlined tag s kids) =
     bind_res (ast_add_inlined_node a tag s) (\<lambda>a1.
     bind_res (build_seq a1 kids) (\<lambda>a2. close_node a2 (length a + 1) tag))"
| "build_seq a [] = Inr a"
| "build_seq a (t # ts) = bind_res (build a t) (\<lambda>a1. build_seq a1 ts)"

text \<open>
  The number of bytes of a node, and well-formedness: the tag is in the table, inline data
  goes with the tags that have it, there are \<open>num_subtrees\<close> fixed children and further
  (trailing) children only under a tag with skips, and the distance stored in \<^verbatim>\<open>END\<close> is
  below 65536.
\<close>

fun tsize :: "tree \<Rightarrow> nat" where
  "tsize (Add tag kids) =
     1 + 2 * num_skips (ast_node_defs ! tag) + sum_list (map tsize kids)"
| "tsize (Ins tag front back) =
     1 + 2 * num_skips (ast_node_defs ! tag) + sum_list (map tsize (front @ back))"
| "tsize (Inlined tag s kids) =
     1 + length (encode_varint (length s)) + length s + sum_list (map tsize kids)"

definition arity_ok :: "nat \<Rightarrow> nat \<Rightarrow> bool" where
  "arity_ok tag n =
     (if num_skips (ast_node_defs ! tag) = 0 then n = num_subtrees (ast_node_defs ! tag)
      else num_subtrees (ast_node_defs ! tag) \<le> n)"

definition end_fits :: "nat \<Rightarrow> nat \<Rightarrow> bool" where
  "end_fits tag sz = (num_skips (ast_node_defs ! tag) = 0 \<or> sz - 1 < 65536)"

fun well_formed :: "tree \<Rightarrow> bool" where
  "well_formed (Add tag kids) =
     (tag < AST_MAX_TAG \<and> \<not> has_inlined (ast_node_defs ! tag) \<and> arity_ok tag (length kids)
      \<and> end_fits tag (tsize (Add tag kids)) \<and> (\<forall>k \<in> set kids. well_formed k))"
| "well_formed (Ins tag front back) =
     (tag < AST_MAX_TAG \<and> \<not> has_inlined (ast_node_defs ! tag)
      \<and> arity_ok tag (length (front @ back))
      \<and> end_fits tag (tsize (Ins tag front back))
      \<and> (\<forall>k \<in> set (front @ back). well_formed k))"
| "well_formed (Inlined tag s kids) =
     (tag < AST_MAX_TAG \<and> has_inlined (ast_node_defs ! tag) \<and> arity_ok tag (length kids)
      \<and> (\<forall>k \<in> set kids. well_formed k))"

text \<open>The bytes of a well-formed tree in the layout of the format.\<close>

fun bytes_of :: "tree \<Rightarrow> 8 word list" where
  "bytes_of (Add tag kids) =
     of_nat tag # hdr_slots (num_skips (ast_node_defs ! tag)) (tsize (Add tag kids) - 1)
       @ concat (map bytes_of kids)"
| "bytes_of (Ins tag front back) =
     of_nat tag # hdr_slots (num_skips (ast_node_defs ! tag)) (tsize (Ins tag front back) - 1)
       @ concat (map bytes_of (front @ back))"
| "bytes_of (Inlined tag s kids) =
     of_nat tag # encode_varint (length s) @ s @ concat (map bytes_of kids)"

text \<open>A computation with fuel that gives the same result from some amount of fuel on.\<close>

definition finishes_at :: "(nat \<Rightarrow> (error + nat) option) \<Rightarrow> nat \<Rightarrow> bool" where
  "finishes_at f r = (\<exists>n. \<forall>m \<ge> n. f m = Some (Inr r))"

section \<open>Date and time arithmetic (the date module)\<close>

subsection \<open>C arithmetic on integers and doubles\<close>

text \<open>
  \<^verbatim>\<open>/\<close> and \<^verbatim>\<open>%\<close> on C integers truncate towards zero. \<^verbatim>\<open>etime_t\<close> is a double and
  \<^verbatim>\<open>INVALID_TIME\<close> is \<^verbatim>\<open>NAN\<close>; the model keeps the integer-valued instants, \<open>None\<close> being NaN.
  For an integer-valued double \<open>t\<close> in the range where doubles are exact and a positive
  integer constant \<open>c\<close>, \<^verbatim>\<open>floor(t / c)\<close> is \<open>t div c\<close> and the conversion \<^verbatim>\<open>(etimeint_t) t\<close> is
  \<open>t\<close> itself. Comparing doubles with \<^verbatim>\<open>!=\<close> is true as soon as one side is NaN.
\<close>

definition c_div :: "int \<Rightarrow> int \<Rightarrow> int" where
  "c_div a b = (if (a < 0) = (b < 0) then \<bar>a\<bar> div \<bar>b\<bar> else - (\<bar>a\<bar> div \<bar>b\<bar>))"

definition c_mod :: "int \<Rightarrow> int \<Rightarrow> int" where
  "c_mod a b = a - b * c_div a b"

type_synonym etime_t = "int option"

definition INVALID_TIME :: etime_t where
  "INVALID_TIME = None"

definition double_ne :: "etime_t \<Rightarrow> etime_t \<Rightarrow> bool" where
  "double_ne x y = (case (x, y) of (Some a, Some b) \<Rightarrow> a \<noteq> b | _ \<Rightarrow> True)"

definition double_eq :: "etime_t \<Rightarrow> etime_t \<Rightarrow> bool" where
  "double_eq x y = (case (x, y) of (Some a, Some b) \<Rightarrow> a = b | _ \<Rightarrow> False)"

abbreviation msPerDay :: int where "msPerDay \<equiv> 86400000"
abbreviation HoursPerDay :: int where "HoursPerDay \<equiv> 24"
abbreviation MinutesPerHour :: int where "MinutesPerHour \<equiv> 60"
abbreviation SecondsPerMinute :: int where "SecondsPerMinute \<equiv> 60"
abbreviation msPerSecond :: int where "msPerSecond \<equiv> 1000"
abbreviation msPerMinute :: int where "msPerMinute \<equiv> 60000"
abbreviation msPerHour :: int where "msPerHour \<equiv> 3600000"
abbreviation MonthInYear :: int where "MonthInYear \<equiv> 12"

subsection \<open>Calendar kernel\<close>

definition ecma_Day :: "int \<Rightarrow> int" where
  "ecma_Day t = t div msPerDay"

definition ecma_DaysInYear :: "int \<Rightarrow> int" where
  "ecma_DaysInYear y =
     (if c_mod y 4 \<noteq> 0 then 365
      else if c_mod y 4 = 0 \<and> c_mod y 100 \<noteq> 0 then 366
      else if c_mod y 100 = 0 \<and> c_mod y 400 \<noteq> 0 then 365
      else if c_mod y 400 = 0 then 366
      else 365)"

text \<open>
  \<^verbatim>\<open>ecma_DayFromYear\<close>: \<open>y\<close> is an \<^verbatim>\<open>int64_t\<close>, so each \<^verbatim>\<open>(y-1969)/4\<close> is an integer
  division that has truncated before \<^verbatim>\<open>floor\<close> sees it.
\<close>

definition ecma_DayFromYear :: "int \<Rightarrow> int" where
  "ecma_DayFromYear y =
     365 * (y - 1970) + c_div (y - 1969) 4 - c_div (y - 1901) 100 + c_div (y - 1601) 400"

text \<open>
  The spec's words for the same function, with the mathematical floor (\<open>div\<close> on \<open>int\<close>
  rounds towards minus infinity); it is compared with \<open>ecma_DayFromYear\<close> below.
\<close>

definition DayFromYear_spec :: "int \<Rightarrow> int" where
  "DayFromYear_spec y =
     365 * (y - 1970) + (y - 1969) div 4 - (y - 1901) div 100 + (y - 1601) div 400"

definition ecma_TimeFromYear :: "int \<Rightarrow> int" where
  "ecma_TimeFromYear y = msPerDay * ecma_DayFromYear y"

text \<open>
  The bisection loop of \<^verbatim>\<open>ecma_YearFromTime_s\<close> (\<open>lst\<close> is the source's \<^verbatim>\<open>last\<close>). In its
  second branch the source tests \<^verbatim>\<open>ecma_TimeFromYear(middle) <= t\<close> again, which holds
  there for every number.
\<close>

function year_loop :: "int \<Rightarrow> int \<Rightarrow> int \<Rightarrow> int" where
  "year_loop t first lst =
     (if lst > first
      then (let middle = c_div (lst + first) 2 in
            if ecma_TimeFromYear middle > t then year_loop t first (middle - 1)
            else if ecma_TimeFromYear (middle + 1) > t then middle
            else year_loop t (middle + 1) lst)
      else first)"
  by pat_completeness auto
termination
proof (relation "measure (\<lambda>(t, first, lst). nat (lst - first))")
  have between: "first \<le> c_div (lst + first) 2 \<and> c_div (lst + first) 2 \<le> lst"
    if "first < lst" for first lst :: int
  proof (cases "0 \<le> lst + first")
    case True
    then have "c_div (lst + first) 2 = (lst + first) div 2"
      by (cases "lst + first = 0") (simp_all add: c_div_def)
    with that show ?thesis by linarith
  next
    case False
    then have "c_div (lst + first) 2 = - ((- (lst + first)) div 2)"
      by (simp add: c_div_def)
    with that show ?thesis by linarith
  qed
  show "wf (measure (\<lambda>(t, first, lst). nat (lst - first)))" by simp
  show "((t, first, middle - 1), (t, first, lst)) \<in> measure (\<lambda>(t, first, lst). nat (lst - first))"
    if "first < lst" and "middle = c_div (lst + first) 2" for t first lst middle :: int
    using that between [of first lst] by simp
  show "((t, middle + 1, lst), (t, first, lst)) \<in> measure (\<lambda>(t, first, lst). nat (lst - first))"
    if "first < lst" and "middle = c_div (lst + first) 2" for t first lst middle :: int
    using that between [of first lst] by simp
qed

definition ecma_YearFromTime_s :: "int \<Rightarrow> int" where
  "ecma_YearFromTime_s t =
     (let first = t div msPerDay div 366 + 1970;
          lst = t div msPerDay div 365 + 1970
      in if lst < first then year_loop t lst first else year_loop t first lst)"

definition ecma_InLeapYear :: "int \<Rightarrow> int \<Rightarrow> bool" where
  "ecma_InLeapYear t year = (ecma_DaysInYear year = 366)"

definition ecma_DayWithinYear :: "int \<Rightarrow> int \<Rightarrow> int" where
  "ecma_DayWithinYear t year = ecma_Day t - ecma_DayFromYear year"

definition sdays :: "int list" where
  "sdays = [0, 31, 59, 90, 120, 151, 181, 212, 243, 273, 304, 334, 365]"

definition ecma_getfirstdays :: "bool \<Rightarrow> int list" where
  "ecma_getfirstdays isleap =
     (if isleap then take 2 sdays @ map (\<lambda>d. d + 1) (drop 2 sdays) else sdays)"

definition ecma_MonthFromTime :: "int \<Rightarrow> int \<Rightarrow> int" where
  "ecma_MonthFromTime t year =
     (let dwy = ecma_DayWithinYear t year;
          days = ecma_getfirstdays (ecma_InLeapYear t year)
      in case find (\<lambda>i. dwy \<ge> days ! i \<and> dwy < days ! (i + 1)) [0..<12] of
           None \<Rightarrow> -1
         | Some i \<Rightarrow> int i)"

definition ecma_DateFromTime :: "int \<Rightarrow> int \<Rightarrow> error + int" where
  "ecma_DateFromTime t year =
     (let mft = ecma_MonthFromTime t year;
          dwy = ecma_DayWithinYear t year;
          days = ecma_getfirstdays (ecma_InLeapYear t year)
      in if mft > 11 then Inr (-1)
         else if mft < 0 then Inl OutOfBounds
         else Inr (dwy - days ! nat mft + 1))"

definition ecma_WeekDay :: "int \<Rightarrow> int" where
  "ecma_WeekDay t = c_mod (ecma_Day t + 4) 7"

text \<open>
  The host: the C library's \<^verbatim>\<open>timezone\<close> (seconds west of UTC), whether \<^verbatim>\<open>localtime_r\<close>
  reports daylight saving time at a \<^verbatim>\<open>time_t\<close>, and what the later strategies of the
  string parser make of a string (see \<open>d_parsedatestr\<close>).
\<close>

record timeparts =
  tp_year :: int
  tp_month :: int
  tp_day :: int
  tp_hour :: int
  tp_min :: int
  tp_sec :: int
  tp_msec :: int
  tp_dayofweek :: int

record host =
  timezone :: int
  isdst :: "int \<Rightarrow> bool"
  later_strategies :: "string \<Rightarrow> timeparts \<Rightarrow> bool \<times> timeparts \<times> int"

text \<open>
  A sample host in UTC without daylight saving time. Its \<open>later_strategies\<close> component
  answers ``not recognised''; it stands in only where the later strategies are not
  reached.
\<close>

definition host_utc :: host where
  "host_utc = \<lparr>timezone = 0, isdst = (\<lambda>_. False),
                later_strategies = (\<lambda>str tp. (False, tp, 0x7FFFFFFF))\<rparr>"

definition ecma_DaylightSavingTA :: "host \<Rightarrow> int \<Rightarrow> int" where
  "ecma_DaylightSavingTA h t = (if isdst h (c_div t 1000) then msPerHour else 0)"

definition ecma_LocalTZA :: "host \<Rightarrow> int" where
  "ecma_LocalTZA h = - timezone h * 1000"

definition ecma_LocalTime :: "host \<Rightarrow> int \<Rightarrow> int" where
  "ecma_LocalTime h t = t + ecma_LocalTZA h + ecma_DaylightSavingTA h t"

definition ecma_UTC :: "host \<Rightarrow> int \<Rightarrow> int" where
  "ecma_UTC h t = t - ecma_LocalTZA h - ecma_DaylightSavingTA h (t - ecma_LocalTZA h)"

definition ecma_HourFromTime :: "int \<Rightarrow> int" where
  "ecma_HourFromTime t = c_mod (t div msPerHour) HoursPerDay"

definition ecma_MinFromTime :: "int \<Rightarrow> int" where
  "ecma_MinFromTime t = c_mod (t div msPerMinute) MinutesPerHour"

definition ecma_SecFromTime :: "int \<Rightarrow> int" where
  "ecma_SecFromTime t = c_mod (t div msPerSecond) SecondsPerMinute"

definition ecma_msFromTime :: "int \<Rightarrow> int" where
  "ecma_msFromTime t = c_mod t msPerSecond"

definition ecma_MakeTime :: "int \<Rightarrow> int \<Rightarrow> int \<Rightarrow> int \<Rightarrow> int" where
  "ecma_MakeTime hour minute sec ms =
     ((hour * MinutesPerHour + minute) * SecondsPerMinute + sec) * msPerSecond + ms"

definition ecma_MakeDay :: "int \<Rightarrow> int \<Rightarrow> int \<Rightarrow> error + int" where
  "ecma_MakeDay year month date =
     (let year1 = year + c_div month 12;
          month1 = c_mod month 12;
          yday = c_div (ecma_TimeFromYear year1) msPerDay;
          days = ecma_getfirstdays (ecma_DaysInYear year1 = 366)
      in if month1 < 0 then Inl OutOfBounds
         else Inr (yday + days ! nat month1 + date - 1))"

definition ecma_MakeDate :: "int \<Rightarrow> int \<Rightarrow> int" where
  "ecma_MakeDate day time = day * msPerDay + time"

subsection \<open>Broken-down time\<close>

definition tp_zero :: timeparts where
  "tp_zero = \<lparr>tp_year = 0, tp_month = 0, tp_day = 0, tp_hour = 0, tp_min = 0, tp_sec = 0,
              tp_msec = 0, tp_dayofweek = 0\<rparr>"

definition d_mktime_impl :: "timeparts \<Rightarrow> error + int" where
  "d_mktime_impl tp =
     bind_res (ecma_MakeDay (tp_year tp) (tp_month tp) (tp_day tp)) (\<lambda>day.
       Inr (ecma_MakeDate day (ecma_MakeTime (tp_hour tp) (tp_min tp) (tp_sec tp) (tp_msec tp))))"

definition d_lmktime :: "host \<Rightarrow> timeparts \<Rightarrow> error + int" where
  "d_lmktime h tp = bind_res (d_mktime_impl tp) (\<lambda>t. Inr (ecma_UTC h t))"

definition d_gmktime :: "timeparts \<Rightarrow> error + int" where
  "d_gmktime tp = d_mktime_impl tp"

definition d_gmtime :: "int \<Rightarrow> error + timeparts" where
  "d_gmtime t =
     (let year = ecma_YearFromTime_s t;
          month = ecma_MonthFromTime t year
      in bind_res (ecma_DateFromTime t year) (\<lambda>day.
           Inr \<lparr>tp_year = year, tp_month = month, tp_day = day,
                tp_hour = ecma_HourFromTime t, tp_min = ecma_MinFromTime t,
                tp_sec = ecma_SecFromTime t, tp_msec = ecma_msFromTime t,
                tp_dayofweek = ecma_WeekDay t\<rparr>))"

definition d_localtime :: "host \<Rightarrow> int \<Rightarrow> error + timeparts" where
  "d_localtime h t = d_gmtime (ecma_LocalTime h t)"

definition d_gettimezone :: "host \<Rightarrow> int" where
  "d_gettimezone h = c_div (timezone h) 60"

subsection \<open>The C library's formatted output and input, as far as the module uses them\<close>

text \<open>
  \<^verbatim>\<open>%0wd\<close> of \<^verbatim>\<open>printf\<close>: the decimal digits, a minus sign for a negative number, zeros
  between sign and digits up to a total width of \<open>w\<close>.
\<close>

definition digit_char :: "nat \<Rightarrow> char" where
  "digit_char d = ''0123456789'' ! d"

function dec :: "nat \<Rightarrow> string" where
  "dec n = (if n < 10 then [digit_char n] else dec (n div 10) @ [digit_char (n mod 10)])"
  by pat_completeness auto
termination
  by (relation "measure id") auto

definition fmt_0d :: "nat \<Rightarrow> int \<Rightarrow> string" where
  "fmt_0d w n =
     (let sign = (if n < 0 then ''-'' else '''');
          ds = dec (nat \<bar>n\<bar>)
      in sign @ replicate (w - length sign - length ds) CHR ''0'' @ ds)"

text \<open>
  \<^verbatim>\<open>sscanf\<close> with the directives of the ISO format: white space in the format skips any
  white space, an ordinary character must match, \<^verbatim>\<open>%d\<close> (with an optional maximum field
  width) skips white space and converts an optional sign and at least one digit. The
  result is the list of the values converted before the first failure; its length is what
  \<^verbatim>\<open>sscanf\<close> returns whenever that is not \<^verbatim>\<open>EOF\<close>. The values are mathematical integers:
  a number outside the range of the source's \<^verbatim>\<open>int\<close> fields, where the C conversion is
  undefined, is outside the model.
\<close>

datatype directive = Spaces | Lit char | IntConv "nat option"

definition is_space :: "char \<Rightarrow> bool" where
  "is_space c = (c \<in> set [CHR '' '', CHR 0x09, CHR 0x0A, CHR 0x0B, CHR 0x0C, CHR 0x0D])"

definition is_digit :: "char \<Rightarrow> bool" where
  "is_digit c = ((48 :: nat) \<le> of_char c \<and> of_char c \<le> (57 :: nat))"

definition digits_value :: "string \<Rightarrow> int" where
  "digits_value ds = foldl (\<lambda>v c. 10 * v + (int (of_char c :: nat) - 48)) 0 ds"

definition scan_int :: "nat option \<Rightarrow> string \<Rightarrow> (int \<times> string) option" where
  "scan_int width s =
     (let s1 = dropWhile is_space s;
          field = (case width of None \<Rightarrow> s1 | Some w \<Rightarrow> take w s1);
          signed = (field \<noteq> [] \<and> (hd field = CHR ''-'' \<or> hd field = CHR ''+''));
          body = (if signed then tl field else field);
          ds = takeWhile is_digit body;
          used = (if signed then 1 else 0) + length ds
      in if ds = [] then None
         else Some ((if signed \<and> hd field = CHR ''-'' then - digits_value ds else digits_value ds),
                    drop used s1))"

fun sscanf_ints :: "directive list \<Rightarrow> string \<Rightarrow> int list" where
  "sscanf_ints [] s = []"
| "sscanf_ints (Spaces # ds) s = sscanf_ints ds (dropWhile is_space s)"
| "sscanf_ints (Lit c # ds) s =
     (case s of [] \<Rightarrow> [] | x # xs \<Rightarrow> if x = c then sscanf_ints ds xs else [])"
| "sscanf_ints (IntConv w # ds) s =
     (case scan_int w s of None \<Rightarrow> [] | Some (v, r) \<Rightarrow> v # sscanf_ints ds r)"

subsection \<open>From and to strings\<close>

text \<open>
  \<^verbatim>\<open>d_timetoISOstr\<close>: the sign is written by hand in front, and \<^verbatim>\<open>snprintf\<close> then formats
  the year itself with \<^verbatim>\<open>%06d\<close> (or \<^verbatim>\<open>%04d\<close>). The result is the text in the buffer and the
  returned length (the length \<^verbatim>\<open>snprintf\<close> would have needed, plus the sign).
\<close>

definition d_timetoISOstr :: "int \<Rightarrow> nat \<Rightarrow> error + (string \<times> nat)" where
  "d_timetoISOstr t buf_size =
     bind_res (d_gmtime t) (\<lambda>tp.
       let use_ext = (\<bar>tp_year tp\<bar> > 9999 \<or> tp_year tp < 0);
           sign = (if use_ext then (if tp_year tp > 0 then ''+'' else ''-'') else '''');
           text = fmt_0d (if use_ext then 6 else 4) (tp_year tp) @ ''-'' @
                  fmt_0d 2 (tp_month tp + 1) @ ''-'' @ fmt_0d 2 (tp_day tp) @ ''T'' @
                  fmt_0d 2 (tp_hour tp) @ '':'' @ fmt_0d 2 (tp_min tp) @ '':'' @
                  fmt_0d 2 (tp_sec tp) @ ''.'' @ fmt_0d 3 (tp_msec tp) @ ''Z''
       in Inr (sign @ take (buf_size - length sign - 1) text, length text + length sign))"

definition NO_TZ :: int where
  "NO_TZ = 0x7FFFFFFF"

definition frmISOString :: "directive list" where
  "frmISOString =
     [Spaces, IntConv None, Lit CHR ''-'', IntConv (Some 2), Lit CHR ''-'', IntConv (Some 2),
      Lit CHR ''T'', IntConv (Some 2), Lit CHR '':'', IntConv (Some 2), Lit CHR '':'',
      IntConv (Some 2), Lit CHR ''.'', IntConv (Some 3), Lit CHR ''Z'']"

definition assign_parts :: "timeparts \<Rightarrow> int list \<Rightarrow> timeparts" where
  "assign_parts tp vs =
     (let tp1 = (if 0 < length vs then tp\<lparr>tp_year := vs ! 0\<rparr> else tp);
          tp2 = (if 1 < length vs then tp1\<lparr>tp_month := vs ! 1\<rparr> else tp1);
          tp3 = (if 2 < length vs then tp2\<lparr>tp_day := vs ! 2\<rparr> else tp2);
          tp4 = (if 3 < length vs then tp3\<lparr>tp_hour := vs ! 3\<rparr> else tp3);
          tp5 = (if 4 < length vs then tp4\<lparr>tp_min := vs ! 4\<rparr> else tp4);
          tp6 = (if 5 < length vs then tp5\<lparr>tp_sec := vs ! 5\<rparr> else tp5)
      in if 6 < length vs then tp6\<lparr>tp_msec := vs ! 6\<rparr> else tp6)"

text \<open>
  \<^verbatim>\<open>d_parsedatestr\<close>. Strategy 1 is the \<^verbatim>\<open>sscanf\<close> of the ISO format. The later strategies
  are the host's \<^verbatim>\<open>getdate\<close> and \<^verbatim>\<open>sscanf\<close> calls whose formats (\<^verbatim>\<open>%03*s\<close>, a scan set cut
  short by \<^verbatim>\<open>\0\<close>) the C standard leaves undefined; what they answer for a string and the
  parts already assigned is a parameter of the host.
\<close>

definition d_parsedatestr :: "host \<Rightarrow> string \<Rightarrow> bool \<times> timeparts \<times> int" where
  "d_parsedatestr h str =
     (let vs = sscanf_ints frmISOString str;
          tp = assign_parts tp_zero vs
      in if length vs = 7 then (True, tp, 0) else later_strategies h str tp)"

definition d_timeFromString :: "host \<Rightarrow> string \<Rightarrow> nat \<Rightarrow> error + (etime_t \<times> bool)" where
  "d_timeFromString h str buf_size =
     (if buf_size > 100 then Inr (INVALID_TIME, False)
      else
        bind_res
          (case d_parsedatestr h str of
             (False, _, _) \<Rightarrow> Inr INVALID_TIME
           | (True, tp0, tz0) \<Rightarrow>
               let tp = tp0\<lparr>tp_month := tp_month tp0 - 1\<rparr>;
                   valid1 = (tp_day tp \<ge> 1 \<and> tp_day tp \<le> 31)
                          \<and> (tp_month tp \<ge> 0 \<and> tp_month tp \<le> 11)
                          \<and> (tp_hour tp \<ge> 0 \<and> tp_hour tp \<le> 23)
                          \<and> (tp_min tp \<ge> 0 \<and> tp_min tp \<le> 59)
                          \<and> (tp_sec tp \<ge> 0 \<and> tp_sec tp \<le> 59);
                   tz = (if tz0 \<noteq> NO_TZ \<and> tz0 > 12 then c_div tz0 100 else tz0);
                   valid = (valid1 \<and> (\<bar>tz\<bar> \<le> 12 \<or> tz = NO_TZ))
               in if valid
                  then bind_res (d_gmktime tp) (\<lambda>time.
                         Inr (Some (time - (if tz = NO_TZ then - d_gettimezone h * msPerMinute
                                            else tz * msPerHour))))
                  else Inr INVALID_TIME)
          (\<lambda>time. Inr (time, double_ne time INVALID_TIME)))"

subsection \<open>The locale around locale-sensitive formatting\<close>

text \<open>
  The process-wide state of \<^verbatim>\<open>setlocale(LC_TIME, ...)\<close>: the locale in effect and the
  string the C library hands out for it. \<^verbatim>\<open>setlocale(LC_TIME, NULL)\<close> returns that string;
  \<^verbatim>\<open>setlocale(LC_TIME, name)\<close> selects the environment's locale for the empty name, the
  named locale if the host knows it, and changes nothing otherwise.
\<close>

record locale_state =
  lc_time :: string
  lc_time_name :: string

record locale_host =
  env_locale :: string
  known_locale :: "string \<Rightarrow> bool"

definition setlocale_LC_TIME :: "locale_host \<Rightarrow> locale_state \<Rightarrow> string \<Rightarrow> locale_state" where
  "setlocale_LC_TIME lh st nm =
     (if nm = [] then \<lparr>lc_time = env_locale lh, lc_time_name = env_locale lh\<rparr>
      else if known_locale lh nm then \<lparr>lc_time = nm, lc_time_name = nm\<rparr>
      else st)"

text \<open>
  \<^verbatim>\<open>d_getcurrentlocale\<close> is \<^verbatim>\<open>strcpy(setlocale(LC_TIME, 0), loc->locale)\<close>: the destination
  is the library's string, the source is the caller's buffer, which stays as it was.
\<close>

definition d_getcurrentlocale :: "locale_state \<Rightarrow> string \<Rightarrow> locale_state \<times> string" where
  "d_getcurrentlocale st loc = (st\<lparr>lc_time_name := loc\<rparr>, loc)"

definition d_setlocale :: "locale_host \<Rightarrow> locale_state \<Rightarrow> string option \<Rightarrow> locale_state" where
  "d_setlocale lh st loc = setlocale_LC_TIME lh st (case loc of None \<Rightarrow> '''' | Some l \<Rightarrow> l)"

text \<open>
  \<^verbatim>\<open>d_tolocalestr\<close> for a valid date: \<open>prev_locale\<close> is a local variable that nothing has
  written yet (\<open>uninit\<close> is whatever it holds), \<open>strftime_host\<close> is the host's formatting
  under the locale in effect.
\<close>

definition d_tolocalestr ::
  "locale_host \<Rightarrow> (string \<Rightarrow> int \<Rightarrow> string) \<Rightarrow> string \<Rightarrow> locale_state \<Rightarrow> int \<Rightarrow> locale_state \<times> string" where
  "d_tolocalestr lh strftime_host uninit st time =
     (let (st1, prev_locale) = d_getcurrentlocale st uninit;
          st2 = d_setlocale lh st1 None;
          buf = strftime_host (lc_time st2) (c_div time 1000);
          st3 = d_setlocale lh st2 (Some prev_locale)
      in (st3, buf))"

subsection \<open>The constructor with two or more arguments\<close>

text \<open>
  The arguments are taken after \<^verbatim>\<open>d_argtoint\<close>, which leaves a truncated number or NaN in
  \<^verbatim>\<open>a.args[i]\<close> and returns \<^verbatim>\<open>*ret != INVALID_TIME\<close>. The array has seven elements. The
  cast \<^verbatim>\<open>(int) a->args[i]\<close> and the 64-bit products are taken on mathematical integers:
  arguments beyond the range of \<^verbatim>\<open>int\<close>, where the source overflows, are outside the model.
\<close>

definition d_argtoint_ret :: "etime_t \<Rightarrow> bool" where
  "d_argtoint_ret r = double_ne r INVALID_TIME"

fun store_args :: "etime_t list \<Rightarrow> nat \<Rightarrow> etime_t list \<Rightarrow> error + (etime_t list \<times> bool)" where
  "store_args a i [] = Inr (a, True)"
| "store_args a i (v # vs) =
     (if \<not> i < length a then Inl OutOfBounds
      else if \<not> d_argtoint_ret v then Inr (a[i := v], False)
      else store_args (a[i := v]) (i + 1) vs)"

definition set_part :: "timeparts \<Rightarrow> nat \<Rightarrow> int \<Rightarrow> timeparts" where
  "set_part tp i v =
     (if i = 0 then tp\<lparr>tp_year := v\<rparr>
      else if i = 1 then tp\<lparr>tp_month := v\<rparr>
      else if i = 2 then tp\<lparr>tp_day := v\<rparr>
      else if i = 3 then tp\<lparr>tp_hour := v\<rparr>
      else if i = 4 then tp\<lparr>tp_min := v\<rparr>
      else if i = 5 then tp\<lparr>tp_sec := v\<rparr>
      else tp\<lparr>tp_msec := v\<rparr>)"

definition d_changepartoftime ::
  "int option \<Rightarrow> etime_t list \<Rightarrow> (int \<Rightarrow> error + timeparts) option \<Rightarrow> (timeparts \<Rightarrow> error + int)
     \<Rightarrow> error + int" where
  "d_changepartoftime current a breaktimefunc maketimefunc =
     bind_res
       (case (breaktimefunc, current) of
          (Some f, Some t) \<Rightarrow> f t
        | (Some f, None) \<Rightarrow> Inl OutOfBounds
        | (None, _) \<Rightarrow> Inr tp_zero)
       (\<lambda>tp0. maketimefunc
          (foldl (\<lambda>tp i. case a ! i of None \<Rightarrow> tp | Some v \<Rightarrow> set_part tp i v) tp0 [0..<7]))"

definition Date_ctor_parts :: "host \<Rightarrow> etime_t list \<Rightarrow> error + etime_t" where
  "Date_ctor_parts h args =
     bind_res (store_args (replicate 7 (Some 0)) 0 args) (\<lambda>(a, all_stored).
       if all_stored
       then
         let a1 = (if double_eq (a ! 2) (Some 0) then a[2 := Some 1] else a);
             a2 = (case a1 ! 0 of
                     Some y \<Rightarrow> if y \<ge> 0 \<and> y \<le> 99 then a1[0 := Some (y + 1900)] else a1
                   | None \<Rightarrow> a1)
         in bind_res (d_changepartoftime None a2 None d_gmktime) (\<lambda>t. Inr (Some (ecma_UTC h t)))
       else Inr (Some 0))"

section \<open>Properties of the AST store\<close>

subsection \<open>Bytes and 16-bit skips\<close>

lemma unat_ucast_16_8: "unat (ucast (w :: 16 word) :: 8 word) = unat w mod 256"
  by (simp only: unsigned_ucast_eq take_bit_eq_mod unsigned_take_bit_eq) simp

lemma unat_hi: "unat (ucast (drop_bit 8 (d :: 16 word)) :: 8 word) = unat d div 256"
proof -
  have "unat d < 65536" using unsigned_less [of d, where 'a = nat] by simp
  then have lt: "unat d div 256 < 256" by simp
  have "unat (drop_bit 8 d) = unat d div 256"
    by (simp add: drop_bit_eq_div unat_div)
  with lt show ?thesis
    by (simp only: unat_ucast_16_8) simp
qed

lemma unat_lo: "unat (ucast ((d :: 16 word) AND 0xff) :: 8 word) = unat d mod 256"
proof -
  have "(d AND 0xff) = take_bit 8 d"
    by (simp only: take_bit_eq_mask mask_eq_exp_minus_1) simp
  then have "unat (d AND 0xff) = unat d mod 256"
    by (simp add: take_bit_eq_mod unat_mod)
  then show ?thesis
    by (simp only: unat_ucast_16_8) simp
qed

lemma or_shift: "b < 256 \<Longrightarrow> (b::nat) OR push_bit 8 c = b + 256 * c"
proof -
  assume "b < 256"
  then have b: "take_bit 8 b = b" by (simp add: take_bit_eq_mod)
  have "take_bit 8 b AND push_bit 8 c = 0"
    by (rule bit_eqI) (simp add: bit_simps)
  then have "take_bit 8 b + push_bit 8 c = take_bit 8 b OR push_bit 8 c"
    by (rule disjunctive_add_eq_or)
  with b show ?thesis by (simp add: push_bit_eq_mult)
qed

lemma byte_lt: "unat (b :: 8 word) < 256"
  using unsigned_less [of b, where 'a = nat] by simp

lemma unat_delta: "start \<le> len \<Longrightarrow> unat (word_of_int (int len - int start) :: 16 word) = (len - start) mod 65536"
proof -
  assume "start \<le> len"
  then have "int len - int start = int (len - start)" by simp
  then have "unat (word_of_int (int len - int start) :: 16 word) = unat (word_of_nat (len - start) :: 16 word)"
    by (simp only: word_of_int_nat of_int_of_nat_eq)
  also have "\<dots> = (len - start) mod 65536"
    by (simp add: unat_of_nat)
  finally show ?thesis .
qed

lemma skip_bytes_decode:
  "unat (ucast ((d :: 16 word) AND 0xff) :: 8 word) OR push_bit 8 (unat (ucast (drop_bit 8 d) :: 8 word)) = unat d"
  unfolding unat_hi unat_lo by (simp add: or_shift)

lemma ast_modify_skip_ok:
  assumes "0 < start" "start \<le> wher"
    and "start - 1 < length a"
    and "unat (a ! (start - 1)) < AST_MAX_TAG"
    and "which < num_skips (ast_node_defs ! unat (a ! (start - 1)))"
    and "start + which * 2 + 1 < length a"
  shows "ast_modify_skip a start wher which =
           Inr (a[start + which * 2 := ucast (drop_bit 8 (word_of_int (int wher - int start) :: 16 word)),
                  start + which * 2 + 1 := ucast ((word_of_int (int wher - int start) :: 16 word) AND 0xff)], wher)"
  using assms by (simp add: ast_modify_skip_def Let_def)

lemma ast_modify_skip_assert:
  assumes "0 < start" 
    and "start - 1 < length a"
    and "unat (a ! (start - 1)) < AST_MAX_TAG"
    and "\<not> which < num_skips (ast_node_defs ! unat (a ! (start - 1)))"
  shows "ast_modify_skip a start wher which = Inl AssertionFailed"
  using assms by (simp add: ast_modify_skip_def Let_def)

lemma list_update_Cons_pos: "0 < i \<Longrightarrow> (x # xs)[i := v] = x # xs[i - 1 := v]"
  by (cases i) simp_all

subsection \<open>Patching a skip\<close>

text \<open>
  C2 (as the code has it). \<^verbatim>\<open>ast_set_skip(start, which)\<close> on a node whose tag byte sits at
  \<open>start - 1\<close>: when \<open>which\<close> is not below the tag's \<open>num_skips\<close> the assertion fails; when
  it is (and the slot lies inside the buffer) the call succeeds whatever the distance is, and
  the slot receives the low 16 bits of \<open>length a - start\<close>, high byte first, all other bytes
  unchanged, so that \<^verbatim>\<open>ast_get_skip\<close> reads back \<open>start + (length a - start) mod 65536\<close>.
  There is no check of the distance against 65536.
\<close>

theorem ast_set_skip_low16:
  assumes "0 < start" and "start \<le> length a"
    and "unat (a ! (start - 1)) < AST_MAX_TAG"
  shows "(\<not> which < num_skips (ast_node_defs ! unat (a ! (start - 1)))
            \<longrightarrow> ast_set_skip a start which = Inl AssertionFailed)
       \<and> (which < num_skips (ast_node_defs ! unat (a ! (start - 1))) \<and> start + which * 2 + 1 < length a
            \<longrightarrow> (\<exists>a'. ast_set_skip a start which = Inr (a', length a)
                  \<and> length a' = length a
                  \<and> unat (a' ! (start + which * 2)) = (length a - start) mod 65536 div 256
                  \<and> unat (a' ! (start + which * 2 + 1)) = (length a - start) mod 256
                  \<and> (\<forall>i. i \<noteq> start + which * 2 \<and> i \<noteq> start + which * 2 + 1 \<longrightarrow> a' ! i = a ! i)
                  \<and> ast_get_skip a' start which = Inr (start + (length a - start) mod 65536)))"
proof (intro conjI impI)
  assume "\<not> which < num_skips (ast_node_defs ! unat (a ! (start - 1)))"
  with assms show "ast_set_skip a start which = Inl AssertionFailed"
    by (simp add: ast_set_skip_def ast_modify_skip_assert)
next
  assume h: "which < num_skips (ast_node_defs ! unat (a ! (start - 1))) \<and> start + which * 2 + 1 < length a"
  define d where "d = (word_of_int (int (length a) - int start) :: 16 word)"
  define p where "p = start + which * 2"
  define a' where "a' = a[p := ucast (drop_bit 8 d), p + 1 := ucast (d AND 0xff)]"
  have pl: "p + 1 < length a" using h by (simp add: p_def)
  have ud: "unat d = (length a - start) mod 65536"
    unfolding d_def using assms(2) by (rule unat_delta)
  have "ast_modify_skip a start (length a) which = Inr (a', length a)"
    unfolding a'_def d_def p_def using assms h by (intro ast_modify_skip_ok) auto
  then have eq: "ast_set_skip a start which = Inr (a', length a)"
    by (simp only: ast_set_skip_def)
  have len: "length a' = length a" by (simp add: a'_def)
  have n0: "a' ! p = ucast (drop_bit 8 d)" using pl by (simp add: a'_def)
  have n1: "a' ! (p + 1) = ucast (d AND 0xff)" using pl by (simp add: a'_def)
  have hi: "unat (a' ! p) = (length a - start) mod 65536 div 256"
    unfolding n0 unat_hi ud ..
  have "unat (a' ! (p + 1)) = (length a - start) mod 65536 mod 256"
    unfolding n1 unat_lo ud ..
  then have lo: "unat (a' ! (p + 1)) = (length a - start) mod 256"
    by (simp add: mod_mod_cancel)
  have oth: "\<forall>i. i \<noteq> p \<and> i \<noteq> p + 1 \<longrightarrow> a' ! i = a ! i" by (simp add: a'_def)
  have "ast_get_skip a' start which = Inr (start + (unat (a' ! (p + 1)) OR push_bit 8 (unat (a' ! p))))"
    using pl by (simp add: ast_get_skip_def Let_def len p_def)
  then have get: "ast_get_skip a' start which = Inr (start + (length a - start) mod 65536)"
    unfolding n0 n1 skip_bytes_decode ud .
  show "\<exists>a'. ast_set_skip a start which = Inr (a', length a)
                  \<and> length a' = length a
                  \<and> unat (a' ! (start + which * 2)) = (length a - start) mod 65536 div 256
                  \<and> unat (a' ! (start + which * 2 + 1)) = (length a - start) mod 256
                  \<and> (\<forall>i. i \<noteq> start + which * 2 \<and> i \<noteq> start + which * 2 + 1 \<longrightarrow> a' ! i = a ! i)
                  \<and> ast_get_skip a' start which = Inr (start + (length a - start) mod 65536)"
    unfolding p_def [symmetric]
    by (rule exI [of _ a']) (intro conjI eq len hi lo oth get)
qed

theorem ast_set_skip_low16_witness:
  "ast_set_skip [24, 0, 0, 35] 1 0 = Inr ([24, 0, 3, 35], 4) \<and> ast_get_skip [24, 0, 3, 35] 1 0 = Inr 4"
  using ast_set_skip_low16 [of 1 "[24, 0, 0, 35]" 0]
  by (simp add: ast_set_skip_def ast_modify_skip_def Let_def AST_END_SKIP_def AST_MAX_TAG_def
        ast_node_defs_def AST_ENTRY_def ast_get_skip_def)

text \<open>
  C2 as stated fails: a call 65538 bytes after the payload start returns normally and
  stores 2.
\<close>

lemma set_skip_big:
  assumes "length rest = 65536"
  shows "ast_set_skip (24 # 0 # 0 # rest) 1 AST_END_SKIP = Inr (24 # 0 # 2 # rest, 65539)"
  using assms
  by (simp add: ast_set_skip_def ast_modify_skip_def Let_def AST_END_SKIP_def AST_MAX_TAG_def
        ast_node_defs_def AST_ENTRY_def list_update_Cons_pos)

theorem ast_set_skip_no_delta_check:
  "ast_set_skip (24 # 0 # 0 # replicate 65536 0) 1 AST_END_SKIP
     = Inr (24 # 0 # 2 # replicate 65536 0, 65539)
   \<and> 65536 \<le> length (24 # 0 # 0 # replicate 65536 (0 :: 8 word)) - 1"
  using set_skip_big [of "replicate 65536 0"] by simp

subsection \<open>The schema table\<close>

lemma defs_inv:
  "\<forall>d \<in> set ast_node_defs. (has_varint d \<longrightarrow> num_skips d = 0) \<and> (has_inlined d \<longrightarrow> has_varint d)"
  by (simp add: ast_node_defs_def AST_ENTRY_def)

lemma defs_inv_nth:
  "tag < AST_MAX_TAG \<Longrightarrow> has_varint (ast_node_defs ! tag) \<Longrightarrow> num_skips (ast_node_defs ! tag) = 0"
  using defs_inv nth_mem unfolding AST_MAX_TAG_def by blast

lemma AST_MAX_TAG_92: "AST_MAX_TAG = 92"
  by (simp add: AST_MAX_TAG_def ast_node_defs_def)

text \<open>
  C9. In every entry of the schema table \<open>has_varint\<close> implies \<open>num_skips = 0\<close> and
  \<open>has_inlined\<close> implies \<open>has_varint\<close>. Hence \<^verbatim>\<open>ast_move_to_children\<close>, which decodes the
  varint right after the tag and adds the width of the skip slots afterwards, agrees on
  every buffer and cursor with the traversal in the order of the declared layout (skip
  slots first, then the varint).
\<close>

theorem ast_node_defs_varint_excludes_skips:
  "(\<forall>d \<in> set ast_node_defs. (has_varint d \<longrightarrow> num_skips d = 0) \<and> (has_inlined d \<longrightarrow> has_varint d))
   \<and> (\<forall>a pos. ast_move_to_children a pos = move_to_children_layout a pos)"
proof (intro conjI allI)
  show "\<forall>d \<in> set ast_node_defs. (has_varint d \<longrightarrow> num_skips d = 0) \<and> (has_inlined d \<longrightarrow> has_varint d)"
    by (rule defs_inv)
next
  fix a pos
  show "ast_move_to_children a pos = move_to_children_layout a pos"
    by (auto simp: ast_move_to_children_def move_to_children_layout_def Let_def bind_res_def
        defs_inv_nth split: option.splits)
qed

theorem ast_node_defs_varint_excludes_skips_witness:
  "AST_ENTRY ''VAR_DECL'' 1 1 0 1 \<in> set ast_node_defs
   \<and> has_varint (AST_ENTRY ''VAR_DECL'' 1 1 0 1) \<and> num_skips (AST_ENTRY ''VAR_DECL'' 1 1 0 1) = 0
   \<and> ast_move_to_children [3, 1, 120, 0] 1 = Inr 3
   \<and> move_to_children_layout [3, 1, 120, 0] 1 = Inr 3"
  using ast_node_defs_varint_excludes_skips
  by (simp add: ast_node_defs_def AST_ENTRY_def move_to_children_layout_def AST_MAX_TAG_def)

lemma mod16_split: "(d :: nat) mod 256 + 256 * (d div 256 mod 256) = d mod 65536"
proof -
  have "d mod (256 * 256) = 256 * (d div 256 mod 256) + d mod 256"
    by (rule mod_mult2_eq)
  then show ?thesis by simp
qed

lemma mod16_div: "(d :: nat) mod 65536 div 256 = d div 256 mod 256"
proof -
  have "d mod 65536 = 256 * (d div 256 mod 256) + d mod 256"
    by (simp only: mod16_split [symmetric] add.commute)
  then show ?thesis by simp
qed

lemma hi_byte_eq:
  "start \<le> len \<Longrightarrow>
   (ucast (drop_bit 8 (word_of_int (int len - int start) :: 16 word)) :: 8 word) = of_nat ((len - start) div 256)"
proof -
  assume le: "start \<le> len"
  have "unat (ucast (drop_bit 8 (word_of_int (int len - int start) :: 16 word)) :: 8 word)
        = (len - start) mod 65536 div 256"
    unfolding unat_hi unat_delta [OF le] ..
  also have "\<dots> = (len - start) div 256 mod 256" by (rule mod16_div)
  also have "\<dots> = unat (of_nat ((len - start) div 256) :: 8 word)"
    by (simp add: unat_of_nat)
  finally show ?thesis by (simp only: word_unat_eq_iff)
qed

lemma lo_byte_eq:
  "start \<le> len \<Longrightarrow>
   (ucast ((word_of_int (int len - int start) :: 16 word) AND 0xff) :: 8 word) = of_nat (len - start)"
proof -
  assume le: "start \<le> len"
  have "unat (ucast ((word_of_int (int len - int start) :: 16 word) AND 0xff) :: 8 word)
        = (len - start) mod 65536 mod 256"
    unfolding unat_lo unat_delta [OF le] ..
  also have "\<dots> = (len - start) mod 256" by (simp add: mod_mod_cancel)
  also have "\<dots> = unat (of_nat (len - start) :: 8 word)"
    by (simp add: unat_of_nat)
  finally show ?thesis by (simp only: word_unat_eq_iff)
qed

lemma ast_modify_skip_eq:
  assumes "0 < start" "start \<le> wher"
    and "start - 1 < length a"
    and "unat (a ! (start - 1)) < AST_MAX_TAG"
    and "which < num_skips (ast_node_defs ! unat (a ! (start - 1)))"
    and "start + which * 2 + 1 < length a"
  shows "ast_modify_skip a start wher which =
           Inr (a[start + which * 2 := of_nat ((wher - start) div 256),
                  start + which * 2 + 1 := of_nat (wher - start)], wher)"
  unfolding ast_modify_skip_ok [OF assms] hi_byte_eq [OF assms(2)] lo_byte_eq [OF assms(2)] ..

lemma unat_tag: "tag < AST_MAX_TAG \<Longrightarrow> unat (of_nat tag :: 8 word) = tag"
  by (simp add: unat_of_nat AST_MAX_TAG_92)

lemma skip16_decode:
  "unat (of_nat d :: 8 word) OR push_bit 8 (unat (of_nat (d div 256) :: 8 word)) = d mod 65536"
proof -
  have "unat (of_nat d :: 8 word) OR push_bit 8 (unat (of_nat (d div 256) :: 8 word))
      = d mod 256 + 256 * (d div 256 mod 256)"
    by (simp add: unat_of_nat or_shift)
  also have "\<dots> = d mod 65536" by (simp only: mod16_split)
  finally show ?thesis .
qed

lemma ast_get_skip_end:
  "ast_get_skip (pre @ t # skip16 d @ rest) (length pre + 1) AST_END_SKIP
     = Inr (length pre + 1 + d mod 65536)"
proof -
  have 1: "(pre @ t # skip16 d @ rest) ! (length pre + 1) = of_nat (d div 256)"
    by (simp add: skip16_def nth_append)
  have 2: "(pre @ t # skip16 d @ rest) ! (length pre + 1 + 1) = of_nat d"
    by (simp add: skip16_def nth_append)
  have 3: "length pre + 1 + 1 < length (pre @ t # skip16 d @ rest)"
    by (simp add: skip16_def)
  have "ast_get_skip (pre @ t # skip16 d @ rest) (length pre + 1) AST_END_SKIP
     = Inr (length pre + 1 + (unat ((pre @ t # skip16 d @ rest) ! (length pre + 1 + 1))
             OR push_bit 8 (unat ((pre @ t # skip16 d @ rest) ! (length pre + 1)))))"
    unfolding ast_get_skip_def AST_END_SKIP_def Let_def
    using 3 by (simp add: skip16_def)
  then show ?thesis
    unfolding 1 2 skip16_decode .
qed

lemma ast_set_skip_end_eq:
  assumes "tag < AST_MAX_TAG" "num_skips (ast_node_defs ! tag) \<noteq> 0"
    and "length slots = 2 * num_skips (ast_node_defs ! tag)"
  shows "ast_set_skip (pre @ of_nat tag # slots @ rest) (length pre + 1) AST_END_SKIP
       = Inr (pre @ of_nat tag # (skip16 (length slots + length rest) @ drop 2 slots) @ rest,
              length pre + 1 + length slots + length rest)"
proof -
  let ?a = "pre @ of_nat tag # slots @ rest"
  obtain x y sl where sl: "slots = x # y # sl"
    using assms(2,3) by (cases slots; cases "tl slots") auto
  have "ast_modify_skip ?a (length pre + 1) (length ?a) AST_END_SKIP
        = Inr (?a[length pre + 1 + AST_END_SKIP * 2 := of_nat ((length ?a - (length pre + 1)) div 256),
                  length pre + 1 + AST_END_SKIP * 2 + 1 := of_nat (length ?a - (length pre + 1))], length ?a)"
    using assms sl by (intro ast_modify_skip_eq) (simp_all add: unat_tag AST_END_SKIP_def)
  moreover have "?a[length pre + 1 + AST_END_SKIP * 2 := of_nat ((length ?a - (length pre + 1)) div 256),
                  length pre + 1 + AST_END_SKIP * 2 + 1 := of_nat (length ?a - (length pre + 1))]
                = pre @ of_nat tag # (skip16 (length slots + length rest) @ drop 2 slots) @ rest"
    by (simp add: sl AST_END_SKIP_def list_update_append skip16_def)
  ultimately show ?thesis
    by (simp add: ast_set_skip_def)
qed

lemma ast_insert_node_eq:
  assumes "tag < AST_MAX_TAG" "at \<le> length a"
  shows "ast_insert_node a at tag
       = Inr (take at a @ of_nat tag #
                hdr_slots (num_skips (ast_node_defs ! tag))
                  (2 * num_skips (ast_node_defs ! tag) + (length a - at)) @ drop at a, at + 1)"
proof (cases "num_skips (ast_node_defs ! tag) = 0")
  case True
  then show ?thesis using assms
    by (simp add: ast_insert_node_def mbuf_insert_def bind_res_def hdr_slots_def)
next
  case False
  let ?n = "num_skips (ast_node_defs ! tag)"
  have l: "length (take at a) = at" using assms by simp
  have ins: "ast_insert_node a at tag
     = bind_res (ast_set_skip (take at a @ of_nat tag # replicate (2 * ?n) 0 @ drop at a) (at + 1) AST_END_SKIP)
         (\<lambda>(a3, _). Inr (a3, at + 1))"
    using assms False
    by (simp add: ast_insert_node_def mbuf_insert_def bind_res_def Let_def)
  have "ast_set_skip (take at a @ of_nat tag # replicate (2 * ?n) 0 @ drop at a) (length (take at a) + 1) AST_END_SKIP
      = Inr (take at a @ of_nat tag # (skip16 (length (replicate (2 * ?n) (0::8 word)) + length (drop at a))
               @ drop 2 (replicate (2 * ?n) 0)) @ drop at a,
             length (take at a) + 1 + length (replicate (2 * ?n) (0::8 word)) + length (drop at a))"
    using assms False by (intro ast_set_skip_end_eq) simp_all
  then show ?thesis
    unfolding ins l using False
    by (simp add: bind_res_def hdr_slots_def mult_2_right del: replicate_Suc) 
qed

subsection \<open>Inserting a node\<close>

text \<open>
  C5 (as the code has it). For a tag of the table and a position \<open>at\<close> inside the buffer or at
  its end, \<^verbatim>\<open>ast_insert_node\<close> returns \<open>at + 1\<close>; the bytes before \<open>at\<close> are unchanged, the
  tag byte is at \<open>at\<close>, the bytes that were at and after \<open>at\<close> follow the \<open>2 * num_skips\<close> slot
  bytes, and the slots after the first are zero. When the tag has skips, the \<^verbatim>\<open>END\<close> skip
  holds the low 16 bits of the distance from the payload start to the end of the new
  buffer and reads back as \<open>at + 1\<close> plus that distance modulo 65536. When the distance is
  below 65536, \<^verbatim>\<open>END\<close> reads back as the length of the new buffer (the inserted node
  encloses everything that was at and after \<open>at\<close>), and it then reads back as the offset
  right after the node's own slots exactly when \<open>at\<close> was the end of the buffer.
\<close>

theorem ast_insert_node_end_distance:
  assumes "tag < AST_MAX_TAG" and "at \<le> length a"
  shows "\<exists>a'. ast_insert_node a at tag = Inr (a', at + 1)
      \<and> length a' = length a + 1 + 2 * num_skips (ast_node_defs ! tag)
      \<and> take at a' = take at a
      \<and> a' ! at = of_nat tag
      \<and> drop (at + 1 + 2 * num_skips (ast_node_defs ! tag)) a' = drop at a
      \<and> (\<forall>i. at + 3 \<le> i \<and> i < at + 1 + 2 * num_skips (ast_node_defs ! tag) \<longrightarrow> a' ! i = 0)
      \<and> (num_skips (ast_node_defs ! tag) \<noteq> 0 \<longrightarrow>
            ast_get_skip a' (at + 1) AST_END_SKIP = Inr (at + 1 + (length a' - (at + 1)) mod 65536))
      \<and> (num_skips (ast_node_defs ! tag) \<noteq> 0 \<and> length a' - (at + 1) < 65536 \<longrightarrow>
            ast_get_skip a' (at + 1) AST_END_SKIP = Inr (length a'))
      \<and> (num_skips (ast_node_defs ! tag) \<noteq> 0 \<and> length a' - (at + 1) < 65536 \<longrightarrow>
            (ast_get_skip a' (at + 1) AST_END_SKIP
               = Inr (at + 1 + 2 * num_skips (ast_node_defs ! tag))) = (at = length a))"
proof -
  define n where "n = num_skips (ast_node_defs ! tag)"
  define d where "d = 2 * n + (length a - at)"
  define a' where "a' = take at a @ of_nat tag # hdr_slots n d @ drop at a"
  have lt: "length (take at a) = at" using assms(2) by simp
  have ls: "length (hdr_slots n d) = 2 * n"
    by (cases n) (simp_all add: hdr_slots_def skip16_def)
  have eq: "ast_insert_node a at tag = Inr (a', at + 1)"
    unfolding a'_def d_def n_def using assms by (rule ast_insert_node_eq)
  have len: "length a' = length a + 1 + 2 * n"
    using assms(2) by (simp add: a'_def ls)
  have tk: "take at a' = take at a"
    using assms(2) by (simp add: a'_def)
  have tg: "a' ! at = of_nat tag"
    using lt by (simp add: a'_def nth_append)
  have dr: "drop (at + 1 + 2 * n) a' = drop at a"
    using assms(2) by (simp add: a'_def ls)
  have zs: "\<forall>i. at + 3 \<le> i \<and> i < at + 1 + 2 * n \<longrightarrow> a' ! i = 0"
  proof (intro allI impI)
    fix i assume i: "at + 3 \<le> i \<and> i < at + 1 + 2 * n"
    then have n0: "n \<noteq> 0" by auto
    from i obtain j where j1: "i = at + 3 + j"
      using le_Suc_ex by blast
    with i have j2: "j < 2 * (n - 1)" by linarith
    note j = j1 j2
    have "a' ! (length (take at a) + (3 + j)) = (of_nat tag # hdr_slots n d @ drop at a) ! (3 + j)"
      unfolding a'_def by (rule nth_append_length_plus)
    also have "\<dots> = (replicate (2 * (n - 1)) 0 @ drop at a) ! j"
      using n0 by (simp add: hdr_slots_def skip16_def)
    also have "\<dots> = 0" using j(2) by (simp add: nth_append)
    finally show "a' ! i = 0" unfolding lt by (simp add: j(1) add.assoc)
  qed
  have dd: "length a' - (at + 1) = d"
    using assms(2) by (simp add: len d_def)
  have gd: "ast_get_skip a' (at + 1) AST_END_SKIP = Inr (at + 1 + d mod 65536)" if n0: "n \<noteq> 0"
  proof -
    have g: "ast_get_skip (take at a @ of_nat tag # skip16 d @ (replicate (2 * (n - 1)) 0 @ drop at a))
            (at + 1) AST_END_SKIP = Inr (at + 1 + d mod 65536)"
      using ast_get_skip_end [of "take at a" "of_nat tag" d "replicate (2 * (n - 1)) 0 @ drop at a"]
      unfolding lt .
    have a'eq: "a' = take at a @ of_nat tag # skip16 d @ (replicate (2 * (n - 1)) 0 @ drop at a)"
      using n0 by (simp add: a'_def hdr_slots_def)
    show ?thesis unfolding a'eq by (rule g)
  qed
  have gs: "n \<noteq> 0 \<longrightarrow> ast_get_skip a' (at + 1) AST_END_SKIP = Inr (at + 1 + (length a' - (at + 1)) mod 65536)"
    unfolding dd using gd by blast
  have ge: "ast_get_skip a' (at + 1) AST_END_SKIP = Inr (length a')" if "n \<noteq> 0" and "d < 65536"
  proof -
    have "at + 1 + d mod 65536 = length a'"
      using that(2) assms(2) by (simp add: len d_def)
    with gd [OF that(1)] show ?thesis by simp
  qed
  have g8: "n \<noteq> 0 \<and> length a' - (at + 1) < 65536 \<longrightarrow> ast_get_skip a' (at + 1) AST_END_SKIP = Inr (length a')"
    unfolding dd using ge by blast
  have g9: "n \<noteq> 0 \<and> length a' - (at + 1) < 65536 \<longrightarrow>
      (ast_get_skip a' (at + 1) AST_END_SKIP = Inr (at + 1 + 2 * n)) = (at = length a)"
  proof
    assume h: "n \<noteq> 0 \<and> length a' - (at + 1) < 65536"
    then have "ast_get_skip a' (at + 1) AST_END_SKIP = Inr (length a')"
      using g8 by blast
    moreover have "(length a' = at + 1 + 2 * n) = (at = length a)"
      using assms(2) by (auto simp: len)
    ultimately show "(ast_get_skip a' (at + 1) AST_END_SKIP = Inr (at + 1 + 2 * n)) = (at = length a)"
      by simp
  qed
  show ?thesis
    unfolding n_def [symmetric]
    by (rule exI [of _ a']) (intro conjI eq len tk tg dr zs gs g8 g9)
qed

theorem ast_insert_node_end_distance_witness:
  "AST_SEQ < AST_MAX_TAG \<and> (0 :: nat) \<le> length [0 :: 8 word]
   \<and> num_skips (ast_node_defs ! AST_SEQ) \<noteq> 0
   \<and> ast_insert_node [0] 0 AST_SEQ = Inr ([24, 0, 3, 0], 1)
   \<and> length [24, 0, 3, 0 :: 8 word] - (0 + 1) < 65536
   \<and> ast_get_skip [24, 0, 3, 0] 1 AST_END_SKIP = Inr (length [24, 0, 3, 0 :: 8 word])
   \<and> ast_insert_node [] 0 AST_SEQ = Inr ([24, 0, 2], 1)
   \<and> ast_get_skip [24, 0, 2] 1 AST_END_SKIP = Inr (0 + 1 + 2 * num_skips (ast_node_defs ! AST_SEQ))"
  using ast_insert_node_end_distance [of AST_SEQ 0 "[0]"]
        ast_insert_node_end_distance [of AST_SEQ 0 "[]"]
  by (simp add: ast_insert_node_eq AST_MAX_TAG_92 AST_SEQ_def hdr_slots_def skip16_def
        ast_node_defs_def AST_ENTRY_def ast_get_skip_def AST_END_SKIP_def)

text \<open>
  The bound on the distance is needed: in front of 65536 bytes the stored distance 65538
  wraps to 2, and \<^verbatim>\<open>END\<close> reads back as 3 although the buffer ends at 65539.
\<close>

lemma ast_insert_node_wraps:
  assumes "length a = 65536"
  shows "\<exists>a'. ast_insert_node a 0 AST_SEQ = Inr (a', 1) \<and> length a' = 65539
           \<and> ast_get_skip a' 1 AST_END_SKIP = Inr 3"
proof -
  have n: "num_skips (ast_node_defs ! AST_SEQ) = 1"
    by (simp add: AST_SEQ_def ast_node_defs_def AST_ENTRY_def)
  have "ast_insert_node a 0 AST_SEQ
      = Inr (take 0 a @ of_nat AST_SEQ # hdr_slots (num_skips (ast_node_defs ! AST_SEQ))
               (2 * num_skips (ast_node_defs ! AST_SEQ) + (length a - 0)) @ drop 0 a, 0 + 1)"
    by (rule ast_insert_node_eq) (simp_all add: AST_MAX_TAG_92 AST_SEQ_def)
  then have eq: "ast_insert_node a 0 AST_SEQ = Inr ([] @ of_nat AST_SEQ # skip16 65538 @ a, 1)"
    unfolding n by (simp add: hdr_slots_def assms)
  have "ast_get_skip ([] @ of_nat AST_SEQ # skip16 65538 @ a) (length ([] :: mbuf) + 1) AST_END_SKIP
      = Inr (length ([] :: mbuf) + 1 + 65538 mod 65536)"
    by (rule ast_get_skip_end)
  then have g: "ast_get_skip ([] @ of_nat AST_SEQ # skip16 65538 @ a) 1 AST_END_SKIP = Inr 3"
    by simp
  have l: "length ([] @ of_nat AST_SEQ # skip16 65538 @ a) = 65539"
    by (simp add: skip16_def assms)
  show ?thesis using eq g l by blast
qed

text \<open>
  C5 as stated fails for an earlier offset: inserting \<^verbatim>\<open>SEQ\<close> in front of a one-byte buffer
  gives an \<^verbatim>\<open>END\<close> skip of 4, not 3 (the first byte after the two slot bytes).
\<close>

theorem ast_insert_node_body_not_empty:
  "ast_insert_node [0] 0 AST_SEQ = Inr ([24, 0, 3, 0], 1)
   \<and> ast_get_skip [24, 0, 3, 0] 1 AST_END_SKIP = Inr 4
   \<and> (4 :: nat) \<noteq> 1 + 2 * num_skips (ast_node_defs ! AST_SEQ)"
  by (simp add: ast_insert_node_eq AST_MAX_TAG_92 AST_SEQ_def hdr_slots_def skip16_def
        ast_node_defs_def AST_ENTRY_def ast_get_skip_def AST_END_SKIP_def)

subsection \<open>Building a tree and walking it\<close>

lemma defs_varint_inlined:
  "\<forall>d \<in> set ast_node_defs. has_varint d = has_inlined d"
  by (simp add: ast_node_defs_def AST_ENTRY_def)

lemma defs_varint_inlined_nth:
  "tag < AST_MAX_TAG \<Longrightarrow> has_varint (ast_node_defs ! tag) = has_inlined (ast_node_defs ! tag)"
  using defs_varint_inlined nth_mem unfolding AST_MAX_TAG_def by blast

lemma inlined_no_skips:
  "tag < AST_MAX_TAG \<Longrightarrow> has_inlined (ast_node_defs ! tag) \<Longrightarrow> num_skips (ast_node_defs ! tag) = 0"
  by (simp add: defs_inv_nth defs_varint_inlined_nth)

lemma length_hdr_slots: "length (hdr_slots n d) = 2 * n"
  by (cases n) (simp_all add: hdr_slots_def skip16_def)

lemma length_concat_bytes:
  "(\<And>t. t \<in> set ts \<Longrightarrow> length (bytes_of t) = tsize t) \<Longrightarrow>
   length (concat (map bytes_of ts)) = sum_list (map tsize ts)"
  by (induction ts) simp_all

lemma length_bytes_of: "length (bytes_of t) = tsize t"
proof (induction t)
  case (Add tag kids)
  then show ?case by (simp add: length_hdr_slots length_concat_bytes)
next
  case (Ins tag fr bk)
  then have "length (concat (map bytes_of (fr @ bk))) = sum_list (map tsize (fr @ bk))"
    by (intro length_concat_bytes) auto
  then show ?case by (simp add: length_hdr_slots)
next
  case (Inlined tag s kids)
  then show ?case by (simp add: length_concat_bytes)
qed

lemma length_concat_bytes_of: "length (concat (map bytes_of ts)) = sum_list (map tsize ts)"
  by (simp add: length_concat_bytes length_bytes_of)

lemma tsize_pos: "0 < tsize t"
  by (cases t) simp_all

lemma unat_byte_small: "n < 256 \<Longrightarrow> unat (of_nat n :: 8 word) = n"
  by (simp add: unat_of_nat)

lemma decode_encode_varint:
  "decode_varint (encode_varint n @ rest) = Some (n, length (encode_varint n))"
proof (induction n rule: encode_varint.induct)
  case (1 n)
  show ?case
  proof (cases "n < 128")
    case True
    then have "unat (of_nat n :: 8 word) = n" by (simp add: unat_byte_small)
    with True show ?thesis by (subst (1 2) encode_varint.simps) (simp del: encode_varint.simps)
  next
    case False
    define b :: "8 word" where "b = of_nat (n mod 128 + 128)"
    have "n mod 128 < 128" by simp
    then have "n mod 128 + 128 < 256" by linarith
    then have u: "unat b = n mod 128 + 128"
      unfolding b_def by (rule unat_byte_small)
    have e: "encode_varint n = b # encode_varint (n div 128)"
      unfolding b_def using False by (subst encode_varint.simps) simp
    have ih: "decode_varint (encode_varint (n div 128) @ rest)
                = Some (n div 128, length (encode_varint (n div 128)))"
      using False by (intro 1) simp
    show ?thesis
      unfolding e using ih u by (simp del: encode_varint.simps)
  qed
qed

lemma ast_add_node_eq:
  "tag < AST_MAX_TAG \<Longrightarrow>
   ast_add_node a tag = Inr (a @ of_nat tag # replicate (2 * num_skips (ast_node_defs ! tag)) 0, length a + 1)"
  by (simp add: ast_add_node_def mbuf_append_def Let_def)

lemma drop_2_hdr_slots: "drop 2 (hdr_slots n d) = replicate (2 * (n - 1)) 0"
  by (simp add: hdr_slots_def skip16_def)

lemma drop_2_zero_slots: "drop 2 (replicate (2 * n) (0 :: 8 word)) = replicate (2 * (n - 1)) 0"
  by (simp add: diff_mult_distrib2)

lemma close_node_eq:
  assumes "tag < AST_MAX_TAG"
    and "length slots = 2 * num_skips (ast_node_defs ! tag)"
    and "drop 2 slots = replicate (2 * (num_skips (ast_node_defs ! tag) - 1)) 0"
  shows "close_node (pre @ of_nat tag # slots @ rest) (length pre + 1) tag
       = Inr (pre @ of_nat tag #
                hdr_slots (num_skips (ast_node_defs ! tag))
                  (2 * num_skips (ast_node_defs ! tag) + length rest) @ rest)"
proof (cases "num_skips (ast_node_defs ! tag) = 0")
  case True
  then show ?thesis using assms(2) by (simp add: close_node_def hdr_slots_def)
next
  case False
  have "ast_set_skip (pre @ of_nat tag # slots @ rest) (length pre + 1) AST_END_SKIP
       = Inr (pre @ of_nat tag # (skip16 (length slots + length rest) @ drop 2 slots) @ rest,
              length pre + 1 + length slots + length rest)"
    using assms(1) False assms(2) by (rule ast_set_skip_end_eq)
  then show ?thesis
    using False by (simp add: close_node_def bind_res_def hdr_slots_def assms(2,3))
qed

lemma build_seq_bytes:
  "(\<And>t a. t \<in> set ts \<Longrightarrow> build a t = Inr (a @ bytes_of t)) \<Longrightarrow>
   build_seq a ts = Inr (a @ concat (map bytes_of ts))"
  by (induction ts arbitrary: a) (simp_all add: bind_res_def)

lemma build_bytes: "well_formed t \<Longrightarrow> build a t = Inr (a @ bytes_of t)"
proof (induction t arbitrary: a)
  case (Add tag kids)
  let ?n = "num_skips (ast_node_defs ! tag)"
  let ?K = "concat (map bytes_of kids)"
  have tag: "tag < AST_MAX_TAG" using Add.prems by simp
  have kids: "build_seq a1 kids = Inr (a1 @ ?K)" for a1
    using Add by (intro build_seq_bytes) simp
  have "close_node (a @ of_nat tag # replicate (2 * ?n) 0 @ ?K) (length a + 1) tag
      = Inr (a @ of_nat tag # hdr_slots ?n (2 * ?n + length ?K) @ ?K)"
    using tag by (intro close_node_eq) (simp_all add: drop_2_zero_slots)
  then show ?case
    using tag by (simp add: ast_add_node_eq kids bind_res_def length_concat_bytes_of)
next
  case (Ins tag fr bk)
  let ?n = "num_skips (ast_node_defs ! tag)"
  let ?P = "concat (map bytes_of fr)"
  let ?Q = "concat (map bytes_of bk)"
  have tag: "tag < AST_MAX_TAG" using Ins.prems by simp
  have fr: "build_seq a1 fr = Inr (a1 @ ?P)" for a1
    using Ins by (intro build_seq_bytes) simp
  have bk: "build_seq a1 bk = Inr (a1 @ ?Q)" for a1
    using Ins by (intro build_seq_bytes) simp
  have ins: "ast_insert_node (a @ ?P) (length a) tag
      = Inr (a @ of_nat tag # hdr_slots ?n (2 * ?n + length ?P) @ ?P, length a + 1)"
    using ast_insert_node_eq [of tag "length a" "a @ ?P"] tag by simp
  have "close_node (a @ of_nat tag # hdr_slots ?n (2 * ?n + length ?P) @ (?P @ ?Q)) (length a + 1) tag
      = Inr (a @ of_nat tag # hdr_slots ?n (2 * ?n + length (?P @ ?Q)) @ (?P @ ?Q))"
    using tag by (intro close_node_eq) (simp_all add: drop_2_hdr_slots length_hdr_slots)
  then show ?case
    by (simp add: fr bk ins bind_res_def length_concat_bytes_of)
next
  case (Inlined tag s kids)
  let ?K = "concat (map bytes_of kids)"
  have tag: "tag < AST_MAX_TAG" and inl: "has_inlined (ast_node_defs ! tag)"
    using Inlined.prems by simp_all
  have n0: "num_skips (ast_node_defs ! tag) = 0"
    using tag inl by (rule inlined_no_skips)
  have kids: "build_seq a1 kids = Inr (a1 @ ?K)" for a1
    using Inlined by (intro build_seq_bytes) simp
  have "ast_add_inlined_node a tag s = Inr (a @ of_nat tag # encode_varint (length s) @ s)"
    using tag inl n0
    by (simp add: ast_add_inlined_node_def ast_add_node_eq bind_res_def embed_string_def
          mbuf_insert_def del: encode_varint.simps)
  then show ?case
    using n0 by (simp add: kids bind_res_def close_node_def del: encode_varint.simps)
qed

lemma ast_fetch_tag_at:
  "tag < AST_MAX_TAG \<Longrightarrow> ast_fetch_tag (pre @ of_nat tag # rest) (length pre) = Inr (tag, length pre + 1)"
  by (simp add: ast_fetch_tag_def unat_tag)

lemma ast_move_to_children_plain:
  assumes "tag < AST_MAX_TAG" and "\<not> has_inlined (ast_node_defs ! tag)"
  shows "ast_move_to_children (pre @ of_nat tag # rest) (length pre + 1)
       = Inr (length pre + 1 + 2 * num_skips (ast_node_defs ! tag))"
  using assms
  by (simp add: ast_move_to_children_def unat_tag defs_varint_inlined_nth bind_res_def Let_def)

lemma ast_move_to_children_inlined:
  assumes "tag < AST_MAX_TAG" and "has_inlined (ast_node_defs ! tag)"
  shows "ast_move_to_children (pre @ of_nat tag # encode_varint (length s) @ s @ rest) (length pre + 1)
       = Inr (length pre + 1 + length (encode_varint (length s)) + length s)"
  using assms
  by (simp add: ast_move_to_children_def unat_tag defs_varint_inlined_nth bind_res_def Let_def
        decode_encode_varint inlined_no_skips del: encode_varint.simps)

lemma finishes_atI:
  "(\<And>m. n \<le> m \<Longrightarrow> f m = Some (Inr r)) \<Longrightarrow> finishes_at f r"
  unfolding finishes_at_def by blast

lemma finishes_at_two:
  assumes "finishes_at f r" and "finishes_at g s"
  shows "\<exists>n. (\<forall>m \<ge> n. f m = Some (Inr r)) \<and> (\<forall>m \<ge> n. g m = Some (Inr s))"
proof -
  from assms obtain n1 n2 where 1: "\<forall>m \<ge> n1. f m = Some (Inr r)" and 2: "\<forall>m \<ge> n2. g m = Some (Inr s)"
    unfolding finishes_at_def by blast
  have "(\<forall>m \<ge> max n1 n2. f m = Some (Inr r)) \<and> (\<forall>m \<ge> max n1 n2. g m = Some (Inr s))"
    using 1 2 by simp
  then show ?thesis ..
qed

lemma finishes_skip_subtrees_0: "finishes_at (\<lambda>m. skip_subtrees m B 0 pos) pos"
  by (rule finishes_atI [of 0]) simp

lemma finishes_skip_subtrees_Suc:
  assumes "finishes_at (\<lambda>m. ast_skip_tree m B pos) p1"
    and "finishes_at (\<lambda>m. skip_subtrees m B k p1) p2"
  shows "finishes_at (\<lambda>m. skip_subtrees m B (Suc k) pos) p2"
proof -
  from finishes_at_two [OF assms]
  obtain n where 1: "\<And>m. n \<le> m \<Longrightarrow> ast_skip_tree m B pos = Some (Inr p1)"
    and 2: "\<And>m. n \<le> m \<Longrightarrow> skip_subtrees m B k p1 = Some (Inr p2)"
    by blast
  show ?thesis
  proof (rule finishes_atI [of "Suc n"])
    fix m assume "Suc n \<le> m"
    then obtain m' where m: "m = Suc m'" and le: "n \<le> m'" by (cases m) auto
    show "skip_subtrees m B (Suc k) pos = Some (Inr p2)"
      unfolding m by (simp add: 1 [OF le] 2 [OF le])
  qed
qed

lemma finishes_skip_until_done:
  "\<not> pos < e \<Longrightarrow> finishes_at (\<lambda>m. skip_until m B e pos) pos"
proof (rule finishes_atI [of "Suc 0"])
  fix m assume a: "\<not> pos < e" "Suc 0 \<le> m"
  then obtain m' where "m = Suc m'" by (cases m) auto
  with a show "skip_until m B e pos = Some (Inr pos)" by simp
qed

lemma finishes_skip_until_step:
  assumes "pos < e"
    and "finishes_at (\<lambda>m. ast_skip_tree m B pos) p1"
    and "finishes_at (\<lambda>m. skip_until m B e p1) p2"
  shows "finishes_at (\<lambda>m. skip_until m B e pos) p2"
proof -
  from finishes_at_two [OF assms(2,3)]
  obtain n where 1: "\<And>m. n \<le> m \<Longrightarrow> ast_skip_tree m B pos = Some (Inr p1)"
    and 2: "\<And>m. n \<le> m \<Longrightarrow> skip_until m B e p1 = Some (Inr p2)"
    by blast
  show ?thesis
  proof (rule finishes_atI [of "Suc n"])
    fix m assume "Suc n \<le> m"
    then obtain m' where m: "m = Suc m'" and le: "n \<le> m'" by (cases m) auto
    show "skip_until m B e pos = Some (Inr p2)"
      unfolding m using assms(1) by (simp add: 1 [OF le] 2 [OF le])
  qed
qed

lemma finishes_ast_skip_tree:
  assumes "ast_fetch_tag B pos = Inr (tag, skips)"
    and "ast_move_to_children B skips = Inr pos1"
    and "finishes_at (\<lambda>m. skip_subtrees m B (num_subtrees (ast_node_defs ! tag)) pos1) pos2"
    and "num_skips (ast_node_defs ! tag) \<noteq> 0 \<Longrightarrow> ast_get_skip B skips AST_END_SKIP = Inr e"
    and "num_skips (ast_node_defs ! tag) \<noteq> 0 \<Longrightarrow> finishes_at (\<lambda>m. skip_until m B e pos2) r"
    and "num_skips (ast_node_defs ! tag) = 0 \<Longrightarrow> r = pos2"
  shows "finishes_at (\<lambda>m. ast_skip_tree m B pos) r"
proof (cases "num_skips (ast_node_defs ! tag) = 0")
  case True
  from assms(3) obtain n where 1: "\<forall>m \<ge> n. skip_subtrees m B (num_subtrees (ast_node_defs ! tag)) pos1 = Some (Inr pos2)"
    unfolding finishes_at_def by blast
  show ?thesis
  proof (rule finishes_atI [of "Suc n"])
    fix m assume "Suc n \<le> m"
    then obtain m' where m: "m = Suc m'" and le: "n \<le> m'" by (cases m) auto
    show "ast_skip_tree m B pos = Some (Inr r)"
      unfolding m using True 1 le by (simp add: assms(1,2) assms(6))
  qed
next
  case False
  from finishes_at_two [OF assms(3) assms(5) [OF False]]
  obtain n
    where 1: "\<And>m. n \<le> m \<Longrightarrow> skip_subtrees m B (num_subtrees (ast_node_defs ! tag)) pos1 = Some (Inr pos2)"
      and 2: "\<And>m. n \<le> m \<Longrightarrow> skip_until m B e pos2 = Some (Inr r)"
    by blast
  show ?thesis
  proof (rule finishes_atI [of "Suc n"])
    fix m assume "Suc n \<le> m"
    then obtain m' where m: "m = Suc m'" and le: "n \<le> m'" by (cases m) auto
    show "ast_skip_tree m B pos = Some (Inr r)"
      unfolding m using False by (simp add: assms(1,2) assms(4) 1 [OF le] 2 [OF le])
  qed
qed

lemma skip_subtrees_list:
  assumes "\<And>t pre post. t \<in> set ts \<Longrightarrow>
     finishes_at (\<lambda>m. ast_skip_tree m (pre @ bytes_of t @ post) (length pre)) (length pre + tsize t)"
  shows "finishes_at (\<lambda>m. skip_subtrees m (pre @ concat (map bytes_of ts) @ post) (length ts) (length pre))
           (length pre + sum_list (map tsize ts))"
  using assms
proof (induction ts arbitrary: pre)
  case Nil
  show ?case by (simp add: finishes_at_def)
next
  case (Cons t ts)
  let ?B = "pre @ concat (map bytes_of (t # ts)) @ post"
  have B1: "?B = pre @ bytes_of t @ (concat (map bytes_of ts) @ post)" by simp
  have B2: "?B = (pre @ bytes_of t) @ concat (map bytes_of ts) @ post" by simp
  have 1: "finishes_at (\<lambda>m. ast_skip_tree m ?B (length pre)) (length pre + tsize t)"
    unfolding B1 by (rule Cons.prems) simp
  have "finishes_at (\<lambda>m. skip_subtrees m ((pre @ bytes_of t) @ concat (map bytes_of ts) @ post)
           (length ts) (length (pre @ bytes_of t)))
          (length (pre @ bytes_of t) + sum_list (map tsize ts))"
    by (rule Cons.IH) (simp add: Cons.prems)
  then have 2: "finishes_at (\<lambda>m. skip_subtrees m ?B (length ts) (length pre + tsize t))
          (length pre + sum_list (map tsize (t # ts)))"
    unfolding B2 [symmetric] by (simp add: length_bytes_of add.assoc)
  have "finishes_at (\<lambda>m. skip_subtrees m ?B (Suc (length ts)) (length pre))
          (length pre + sum_list (map tsize (t # ts)))"
    using 1 2 by (rule finishes_skip_subtrees_Suc)
  then show ?case by simp
qed

lemma skip_until_list:
  assumes "\<And>t pre post. t \<in> set ts \<Longrightarrow>
     finishes_at (\<lambda>m. ast_skip_tree m (pre @ bytes_of t @ post) (length pre)) (length pre + tsize t)"
  shows "finishes_at (\<lambda>m. skip_until m (pre @ concat (map bytes_of ts) @ post)
           (length pre + sum_list (map tsize ts)) (length pre))
           (length pre + sum_list (map tsize ts))"
  using assms
proof (induction ts arbitrary: pre)
  case Nil
  show ?case by (simp add: finishes_skip_until_done)
next
  case (Cons t ts)
  let ?B = "pre @ concat (map bytes_of (t # ts)) @ post"
  let ?e = "length pre + sum_list (map tsize (t # ts))"
  have B1: "?B = pre @ bytes_of t @ (concat (map bytes_of ts) @ post)" by simp
  have B2: "?B = (pre @ bytes_of t) @ concat (map bytes_of ts) @ post" by simp
  have lt: "length pre < ?e" using tsize_pos [of t] by simp
  have 1: "finishes_at (\<lambda>m. ast_skip_tree m ?B (length pre)) (length pre + tsize t)"
    unfolding B1 by (rule Cons.prems) simp
  have "finishes_at (\<lambda>m. skip_until m ((pre @ bytes_of t) @ concat (map bytes_of ts) @ post)
           (length (pre @ bytes_of t) + sum_list (map tsize ts)) (length (pre @ bytes_of t)))
          (length (pre @ bytes_of t) + sum_list (map tsize ts))"
    by (rule Cons.IH) (simp add: Cons.prems)
  then have 2: "finishes_at (\<lambda>m. skip_until m ?B ?e (length pre + tsize t)) ?e"
    unfolding B2 [symmetric] by (simp add: length_bytes_of add.assoc)
  show ?case
    using lt 1 2 by (rule finishes_skip_until_step)
qed

lemma skip_plain_node:
  assumes tag: "tag < AST_MAX_TAG" and pl: "\<not> has_inlined (ast_node_defs ! tag)"
    and ar: "arity_ok tag (length kids)"
    and sz: "sz = 1 + 2 * num_skips (ast_node_defs ! tag) + sum_list (map tsize kids)"
    and fits: "end_fits tag sz"
    and kids: "\<And>t pre post. t \<in> set kids \<Longrightarrow>
       finishes_at (\<lambda>m. ast_skip_tree m (pre @ bytes_of t @ post) (length pre)) (length pre + tsize t)"
  shows "finishes_at
           (\<lambda>m. ast_skip_tree m
              (pre @ (of_nat tag # hdr_slots (num_skips (ast_node_defs ! tag)) (sz - 1)
                        @ concat (map bytes_of kids)) @ post) (length pre))
           (length pre + sz)"
proof -
  define n where "n = num_skips (ast_node_defs ! tag)"
  define k where "k = num_subtrees (ast_node_defs ! tag)"
  define hdr where "hdr = hdr_slots n (sz - 1)"
  define K1 where "K1 = concat (map bytes_of (take k kids))"
  define K2 where "K2 = concat (map bytes_of (drop k kids))"
  define B where "B = pre @ (of_nat tag # hdr @ concat (map bytes_of kids)) @ post"
  have kle: "k \<le> length kids"
    using ar by (simp add: arity_ok_def k_def split: if_splits)
  have Ks: "concat (map bytes_of kids) = K1 @ K2"
    unfolding K1_def K2_def by (simp flip: concat_append map_append)
  have sums: "sum_list (map tsize kids) = sum_list (map tsize (take k kids)) + sum_list (map tsize (drop k kids))"
    by (simp flip: sum_list_append map_append)
  have lh: "length hdr = 2 * n" by (simp add: hdr_def length_hdr_slots)
  have Ba: "B = pre @ of_nat tag # (hdr @ K1 @ K2 @ post)" by (simp add: B_def Ks)
  have Bb: "B = (pre @ of_nat tag # hdr) @ concat (map bytes_of (take k kids)) @ (K2 @ post)"
    by (simp add: B_def Ks K1_def)
  have Bc: "B = (pre @ of_nat tag # hdr @ K1) @ concat (map bytes_of (drop k kids)) @ post"
    by (simp add: B_def Ks K2_def)
  have fetch: "ast_fetch_tag B (length pre) = Inr (tag, length pre + 1)"
    unfolding Ba using tag by (rule ast_fetch_tag_at)
  have move: "ast_move_to_children B (length pre + 1) = Inr (length pre + 1 + 2 * n)"
    unfolding Ba n_def using tag pl by (rule ast_move_to_children_plain)
  have "finishes_at (\<lambda>m. skip_subtrees m
           ((pre @ of_nat tag # hdr) @ concat (map bytes_of (take k kids)) @ (K2 @ post))
           (length (take k kids)) (length (pre @ of_nat tag # hdr)))
          (length (pre @ of_nat tag # hdr) + sum_list (map tsize (take k kids)))"
    by (rule skip_subtrees_list) (rule kids, erule in_set_takeD)
  then have subs: "finishes_at (\<lambda>m. skip_subtrees m B k (length pre + 1 + 2 * n))
          (length pre + 1 + 2 * n + sum_list (map tsize (take k kids)))"
    unfolding Bb [symmetric] using kle by (simp add: lh min_absorb2)
  show ?thesis
    unfolding B_def [symmetric] hdr_def [symmetric] n_def [symmetric]
  proof (rule finishes_ast_skip_tree [OF fetch move])
    show "finishes_at (\<lambda>m. skip_subtrees m B (num_subtrees (ast_node_defs ! tag)) (length pre + 1 + 2 * n))
            (length pre + 1 + 2 * n + sum_list (map tsize (take k kids)))"
      using subs by (simp add: k_def)
  next
    assume n0: "num_skips (ast_node_defs ! tag) \<noteq> 0"
    then have sm: "sz - 1 < 65536" using fits by (simp add: end_fits_def)
    have "B = pre @ of_nat tag # skip16 (sz - 1) @ (replicate (2 * (n - 1)) 0 @ K1 @ K2 @ post)"
      using n0 by (simp add: Ba hdr_def hdr_slots_def n_def)
    then have "ast_get_skip B (length pre + 1) AST_END_SKIP = Inr (length pre + 1 + (sz - 1) mod 65536)"
      by (simp only: ast_get_skip_end)
    then show "ast_get_skip B (length pre + 1) AST_END_SKIP = Inr (length pre + sz)"
      using sm sz by simp
  next
    assume n0: "num_skips (ast_node_defs ! tag) \<noteq> 0"
    have U: "finishes_at (\<lambda>m. skip_until m
             ((pre @ of_nat tag # hdr @ K1) @ concat (map bytes_of (drop k kids)) @ post)
             (length (pre @ of_nat tag # hdr @ K1) + sum_list (map tsize (drop k kids)))
             (length (pre @ of_nat tag # hdr @ K1)))
            (length (pre @ of_nat tag # hdr @ K1) + sum_list (map tsize (drop k kids)))"
      by (rule skip_until_list) (rule kids, erule in_set_dropD)
    have L: "length (pre @ of_nat tag # hdr @ K1) = length pre + 1 + 2 * n + sum_list (map tsize (take k kids))"
      by (simp add: lh K1_def length_concat_bytes_of)
    have E: "length pre + 1 + 2 * n + sum_list (map tsize (take k kids)) + sum_list (map tsize (drop k kids))
        = length pre + sz"
      using sz sums by (simp add: n_def)
    show "finishes_at (\<lambda>m. skip_until m B (length pre + sz)
            (length pre + 1 + 2 * n + sum_list (map tsize (take k kids)))) (length pre + sz)"
      using U unfolding Bc [symmetric] L E .
  next
    assume n0: "num_skips (ast_node_defs ! tag) = 0"
    then have "length kids = k" using ar by (simp add: arity_ok_def k_def)
    then show "length pre + sz = length pre + 1 + 2 * n + sum_list (map tsize (take k kids))"
      using sz by (simp add: n_def)
  qed
qed

lemma skip_tree_bytes:
  "well_formed t \<Longrightarrow>
   finishes_at (\<lambda>m. ast_skip_tree m (pre @ bytes_of t @ post) (length pre)) (length pre + tsize t)"
proof (induction t arbitrary: pre post)
  case (Add tag kids)
  have "finishes_at
           (\<lambda>m. ast_skip_tree m
              (pre @ (of_nat tag # hdr_slots (num_skips (ast_node_defs ! tag)) (tsize (Add tag kids) - 1)
                        @ concat (map bytes_of kids)) @ post) (length pre))
           (length pre + tsize (Add tag kids))"
    using Add.prems by (intro skip_plain_node Add.IH) simp_all
  then show ?case by simp
next
  case (Ins tag fr bk)
  have "finishes_at
           (\<lambda>m. ast_skip_tree m
              (pre @ (of_nat tag # hdr_slots (num_skips (ast_node_defs ! tag)) (tsize (Ins tag fr bk) - 1)
                        @ concat (map bytes_of (fr @ bk))) @ post) (length pre))
           (length pre + tsize (Ins tag fr bk))"
  proof (rule skip_plain_node)
    fix t pre post assume "t \<in> set (fr @ bk)"
    then show "finishes_at (\<lambda>m. ast_skip_tree m (pre @ bytes_of t @ post) (length pre)) (length pre + tsize t)"
      using Ins.IH Ins.prems by auto
  qed (use Ins.prems in simp_all)
  then show ?case by simp
next
  case (Inlined tag s kids)
  define B where "B = pre @ bytes_of (Inlined tag s kids) @ post"
  define v where "v = encode_varint (length s)"
  have tag: "tag < AST_MAX_TAG" and inl: "has_inlined (ast_node_defs ! tag)"
    and ar: "arity_ok tag (length kids)"
    using Inlined.prems by simp_all
  have n0: "num_skips (ast_node_defs ! tag) = 0"
    using tag inl by (rule inlined_no_skips)
  have len: "length kids = num_subtrees (ast_node_defs ! tag)"
    using ar n0 by (simp add: arity_ok_def)
  have Ba: "B = pre @ of_nat tag # (v @ s @ concat (map bytes_of kids) @ post)"
    by (simp add: B_def v_def del: encode_varint.simps)
  have Bb: "B = pre @ of_nat tag # encode_varint (length s) @ s @ (concat (map bytes_of kids) @ post)"
    by (simp add: B_def del: encode_varint.simps)
  have Bc: "B = (pre @ of_nat tag # v @ s) @ concat (map bytes_of kids) @ post"
    by (simp add: B_def v_def del: encode_varint.simps)
  have fetch: "ast_fetch_tag B (length pre) = Inr (tag, length pre + 1)"
    unfolding Ba using tag by (rule ast_fetch_tag_at)
  have move: "ast_move_to_children B (length pre + 1) = Inr (length pre + 1 + length v + length s)"
    unfolding Bb v_def using tag inl by (rule ast_move_to_children_inlined)
  have "finishes_at (\<lambda>m. skip_subtrees m ((pre @ of_nat tag # v @ s) @ concat (map bytes_of kids) @ post)
           (length kids) (length (pre @ of_nat tag # v @ s)))
          (length (pre @ of_nat tag # v @ s) + sum_list (map tsize kids))"
    using Inlined.IH Inlined.prems by (intro skip_subtrees_list) simp
  moreover have L: "length (pre @ of_nat tag # v @ s) = length pre + 1 + length v + length s"
    by simp
  ultimately have subs: "finishes_at
      (\<lambda>m. skip_subtrees m B (num_subtrees (ast_node_defs ! tag)) (length pre + 1 + length v + length s))
      (length pre + 1 + length v + length s + sum_list (map tsize kids))"
    unfolding Bc [symmetric] len L by simp
  have "finishes_at (\<lambda>m. ast_skip_tree m B (length pre))
          (length pre + 1 + length v + length s + sum_list (map tsize kids))"
    using fetch move subs by (rule finishes_ast_skip_tree) (simp_all add: n0)
  then show ?case
    unfolding B_def v_def by (simp add: add.assoc del: encode_varint.simps)
qed

lemma well_formed_example:
  "well_formed (Add AST_IF [Inlined AST_IDENT [120] [], Add AST_RETURN []])"
  by (simp add: AST_IF_def AST_IDENT_def AST_RETURN_def AST_MAX_TAG_92 arity_ok_def end_fits_def
        ast_node_defs_def AST_ENTRY_def)

lemma build_example:
  "build [] (Add AST_IF [Inlined AST_IDENT [120] [], Add AST_RETURN []])
     = Inr [5, 0, 8, 0, 0, 20, 1, 120, 35]"
  by code_simp

text \<open>
  C1. For a well-formed tree written with the writer operations after any bytes \<open>a\<close>, the
  build succeeds, and \<^verbatim>\<open>ast_skip_tree\<close> from the tag byte of the tree (offset \<open>length a\<close>),
  given enough fuel, returns exactly the offset of the first byte after the tree, which
  is the length of the buffer at the end of the build, whatever bytes \<open>post\<close> are written
  after it. With \<open>a = []\<close> and \<open>post = []\<close> this is the root built from offset 0 and the
  cursor ends at the buffer length.
\<close>

theorem ast_skip_tree_roundtrip:
  assumes "well_formed t"
  shows "\<exists>a'. build a t = Inr a'
           \<and> (\<exists>n. \<forall>m \<ge> n. ast_skip_tree m (a' @ post) (length a) = Some (Inr (length a')))"
proof -
  have b: "build a t = Inr (a @ bytes_of t)"
    using assms by (rule build_bytes)
  have "finishes_at (\<lambda>m. ast_skip_tree m (a @ bytes_of t @ post) (length a)) (length a + tsize t)"
    using assms by (rule skip_tree_bytes)
  then have "\<exists>n. \<forall>m \<ge> n. ast_skip_tree m ((a @ bytes_of t) @ post) (length a)
                = Some (Inr (length (a @ bytes_of t)))"
    by (simp add: finishes_at_def length_bytes_of)
  with b show ?thesis by blast
qed

theorem ast_skip_tree_roundtrip_witness:
  "well_formed (Add AST_IF [Inlined AST_IDENT [120] [], Add AST_RETURN []])
   \<and> build [] (Add AST_IF [Inlined AST_IDENT [120] [], Add AST_RETURN []])
       = Inr [5, 0, 8, 0, 0, 20, 1, 120, 35]
   \<and> (\<exists>n. \<forall>m \<ge> n. ast_skip_tree m [5, 0, 8, 0, 0, 20, 1, 120, 35] 0 = Some (Inr 9))"
proof -
  from ast_skip_tree_roundtrip [OF well_formed_example, of "[]" "[]"]
  obtain a' where 1: "build [] (Add AST_IF [Inlined AST_IDENT [120] [], Add AST_RETURN []]) = Inr a'"
    and 2: "\<exists>n. \<forall>m \<ge> n. ast_skip_tree m (a' @ []) (length ([] :: mbuf)) = Some (Inr (length a'))"
    by blast
  from 1 [unfolded build_example] have "a' = [5, 0, 8, 0, 0, 20, 1, 120, 35]" by simp
  moreover have "length [5, 0, 8, 0, 0, 20, 1, 120, 35 :: 8 word] = 9" by simp
  ultimately have "\<exists>n. \<forall>m \<ge> n. ast_skip_tree m [5, 0, 8, 0, 0, 20, 1, 120, 35] 0 = Some (Inr 9)"
    using 2 by (simp only: append_Nil2 list.size(3))
  with well_formed_example build_example show ?thesis by (intro conjI)
qed

section \<open>Properties of the date module\<close>

subsection \<open>Days from the epoch to a year\<close>

lemma c_div_nonneg: "0 \<le> a \<Longrightarrow> 0 < b \<Longrightarrow> c_div a b = a div b"
  by (cases "a = 0") (simp_all add: c_div_def)

lemma ecma_DayFromYear_from_1969: "1969 \<le> y \<Longrightarrow> ecma_DayFromYear y = DayFromYear_spec y"
  by (simp add: ecma_DayFromYear_def DayFromYear_spec_def c_div_nonneg)

text \<open>
  C3. \<open>DayFromYear(y)\<close> is \<open>365 (y - 1970) + \<lfloor>(y - 1969) / 4\<rfloor> - \<lfloor>(y - 1901) / 100\<rfloor> +
  \<lfloor>(y - 1601) / 400\<rfloor>\<close> for every year, also before 1970. The code agrees with the formula
  from 1969 on (lemma above) but not before: its integer divisions truncate towards zero
  before \<^verbatim>\<open>floor\<close> is applied. For 1968 the code gives -730, the formula -731 (1968 and
  1969 have 366 + 365 days).
\<close>

theorem ecma_DayFromYear_1968:
  "ecma_DayFromYear 1968 = -730 \<and> DayFromYear_spec 1968 = -731"
  by (simp add: ecma_DayFromYear_def DayFromYear_spec_def c_div_def)

subsection \<open>ISO strings\<close>

text \<open>
  C4. Formatting an instant as an ISO string and parsing the string gives the instant
  back. At the instant -1 (one millisecond before the epoch) the code does not: the
  truncating \<^verbatim>\<open>%\<close> makes hour, minute, second and millisecond -1, the text is
  \<^verbatim>\<open>1969-12-31T-1:-1:-1.-01Z\<close>, the first strategy of the parser converts all seven fields,
  and the range check of the hour leaves the instant invalid.
\<close>

theorem iso_roundtrip_fails_before_epoch:
  "d_timetoISOstr (-1) 30 = Inr (''1969-12-31T-1:-1:-1.-01Z'', 24)
   \<and> d_timeFromString h ''1969-12-31T-1:-1:-1.-01Z'' 24 = Inr (INVALID_TIME, True)"
  by code_simp

text \<open>
  C7. Years outside 0..9999 are written as one sign and six digits. For a negative year
  the code writes the sign by hand and \<^verbatim>\<open>%06d\<close> writes it again: two signs and five digits.
\<close>

theorem d_timetoISOstr_negative_year:
  "d_timetoISOstr (-62198755200000) 30 = Inr (''--00002-12-31T00:00:00.000Z'', 27)"
  by code_simp

text \<open>For a year above 9999 and for a four-digit year the text is as described.\<close>

lemma d_gmtime_year_11476:
  "d_gmtime 300000000000000 =
     Inr \<lparr>tp_year = 11476, tp_month = 7, tp_day = 15, tp_hour = 5, tp_min = 20,
          tp_sec = 0, tp_msec = 0, tp_dayofweek = 2\<rparr>"
  by code_simp

lemma fmt_0d_11476: "fmt_0d 6 11476 = ''011476''"
  by (simp add: fmt_0d_def digit_char_def)

lemma fmt_0d_examples:
  "fmt_0d 2 8 = ''08''" "fmt_0d 2 15 = ''15''"
  "fmt_0d 2 5 = ''05''" "fmt_0d 2 20 = ''20''" "fmt_0d 2 0 = ''00''" "fmt_0d 3 0 = ''000''"
  by (simp_all add: fmt_0d_def digit_char_def numeral_2_eq_2 numeral_3_eq_3)

lemma d_timetoISOstr_year_11476:
  "d_timetoISOstr 300000000000000 30 = Inr (''+011476-08-15T05:20:00.000Z'', 27)"
  by (simp add: d_timetoISOstr_def d_gmtime_year_11476 bind_res_def fmt_0d_11476 fmt_0d_examples)

lemma d_timetoISOstr_year_2015:
  "d_timetoISOstr 1425550830400 30 = Inr (''2015-03-05T10:20:30.400Z'', 24)"
  by code_simp

lemma d_timetoISOstr_epoch:
  "d_timetoISOstr 0 30 = Inr (''1970-01-01T00:00:00.000Z'', 24)"
  by code_simp

subsection \<open>Strings that are too long\<close>

text \<open>
  C10. Whatever the string is, \<^verbatim>\<open>d_timeFromString\<close> called with a size above 100 leaves the
  instant invalid and returns 0.
\<close>

theorem d_timeFromString_too_long:
  "100 < buf_size \<Longrightarrow> d_timeFromString h str buf_size = Inr (INVALID_TIME, False)"
  by (simp add: d_timeFromString_def)

theorem d_timeFromString_too_long_witness:
  "100 < length (replicate 77 CHR '' '' @ ''2015-03-05T10:20:30.400Z'')
   \<and> d_timeFromString host_utc (replicate 77 CHR '' '' @ ''2015-03-05T10:20:30.400Z'')
         (length (replicate 77 CHR '' '' @ ''2015-03-05T10:20:30.400Z''))
       = Inr (INVALID_TIME, False)"
  using d_timeFromString_too_long
          [of "length (replicate 77 CHR '' '' @ ''2015-03-05T10:20:30.400Z'')" host_utc
              "replicate 77 CHR '' '' @ ''2015-03-05T10:20:30.400Z''"]
  by simp

text \<open>The same date after 76 blanks, 100 bytes in all, is accepted.\<close>

lemma d_timeFromString_100_bytes:
  "d_timeFromString h (replicate 76 CHR '' '' @ ''2015-03-05T10:20:30.400Z'') 100
     = Inr (Some 1425550830400, True)"
  by code_simp

subsection \<open>The constructor with date parts\<close>

lemma upt_0_7: "[0..<7] = [0, 1, 2, 3, 4, 5, 6]"
  by code_simp

lemma list_len_le5:
  assumes "length (rest :: 'a list) \<le> 5"
  obtains "rest = []" | a where "rest = [a]" | a b where "rest = [a, b]"
  | a b c where "rest = [a, b, c]" | a b c d where "rest = [a, b, c, d]"
  | a b c d e where "rest = [a, b, c, d, e]"
proof (cases rest)
  case Nil then show ?thesis using that by simp
next
  case c1: (Cons a r1)
  show ?thesis
  proof (cases r1)
    case Nil then show ?thesis using that c1 by simp
  next
    case c2: (Cons b r2)
    show ?thesis
    proof (cases r2)
      case Nil then show ?thesis using that c1 c2 by simp
    next
      case c3: (Cons c r3)
      show ?thesis
      proof (cases r3)
        case Nil then show ?thesis using that c1 c2 c3 by simp
      next
        case c4: (Cons d r4)
        show ?thesis
        proof (cases r4)
          case Nil then show ?thesis using that c1 c2 c3 c4 by simp
        next
          case c5: (Cons e r5)
          then have "r5 = []" using assms c1 c2 c3 c4 by simp
          then show ?thesis using that c1 c2 c3 c4 c5 by simp
        qed
      qed
    qed
  qed
qed

lemma store_args_valid:
  "i + length xs \<le> length a \<Longrightarrow>
   store_args a i (map Some xs) = Inr (take i a @ map Some xs @ drop (i + length xs) a, True)"
proof (induction xs arbitrary: a i)
  case Nil
  then show ?case by simp
next
  case (Cons x xs)
  then have "store_args (a[i := Some x]) (i + 1) (map Some xs)
      = Inr (take (i + 1) (a[i := Some x]) @ map Some xs @ drop (i + 1 + length xs) (a[i := Some x]), True)"
    by (intro Cons.IH) simp
  moreover have "take (i + 1) (a[i := Some x]) = take i a @ [Some x]"
    using Cons.prems by (simp add: take_Suc_conv_app_nth)
  moreover have "drop (i + 1 + length xs) (a[i := Some x]) = drop (i + 1 + length xs) a"
    by simp
  ultimately show ?case
    using Cons.prems by (simp add: d_argtoint_ret_def double_ne_def INVALID_TIME_def)
qed

lemma replicate_7: "replicate 7 x = [x, x, x, x, x, x, x]"
  by (simp add: numeral_eq_Suc)

lemma d_changepartoftime_all:
  "d_changepartoftime None [Some a0, Some a1, Some a2, Some a3, Some a4, Some a5, Some a6] None f
   = f \<lparr>tp_year = a0, tp_month = a1, tp_day = a2, tp_hour = a3, tp_min = a4, tp_sec = a5,
        tp_msec = a6, tp_dayofweek = 0\<rparr>"
  by (simp add: d_changepartoftime_def bind_res_def upt_0_7 set_part_def tp_zero_def)

lemma Date_ctor_parts_fields:
  assumes "length rest \<le> 5"
  shows "Date_ctor_parts h (Some y # Some m # map Some rest) =
     bind_res (d_gmktime
        \<lparr>tp_year = (if 0 \<le> y \<and> y \<le> 99 then y + 1900 else y),
         tp_month = m,
         tp_day = (if 0 < length rest \<and> rest ! 0 \<noteq> 0 then rest ! 0 else 1),
         tp_hour = (if 1 < length rest then rest ! 1 else 0),
         tp_min = (if 2 < length rest then rest ! 2 else 0),
         tp_sec = (if 3 < length rest then rest ! 3 else 0),
         tp_msec = (if 4 < length rest then rest ! 4 else 0),
         tp_dayofweek = 0\<rparr>)
       (\<lambda>t. Inr (Some (ecma_UTC h t)))"
proof -
  have st: "store_args (replicate 7 (Some 0)) 0 (map Some (y # m # rest))
      = Inr (take 0 (replicate 7 (Some 0)) @ map Some (y # m # rest)
              @ drop (0 + length (y # m # rest)) (replicate 7 (Some 0)), True)"
    using assms by (intro store_args_valid) simp
  have args: "Some y # Some m # map Some rest = map Some (y # m # rest)" by simp
  show ?thesis
    unfolding args Date_ctor_parts_def st
    using assms
    by (cases rest rule: list_len_le5)
       (simp_all add: bind_res_def double_eq_def Let_def replicate_7 d_changepartoftime_all)
qed

text \<open>
  C6. With two to seven valid arguments the fields are year (0..99 lifted by 1900), month,
  day (1 when missing), hour, minute, second and millisecond, and the instant is the UTC
  of \<open>MakeDate (MakeDay ...) (MakeTime ...)\<close>. The lemma above is what the code does: it
  also replaces a day that was supplied as 0 by 1, against its own comment (``If date is
  supplied then let dt be ToNumber(date); else let dt be 1''). For \<^verbatim>\<open>new Date(2015, 0, 0)\<close>
  the code stores the UTC of 2015-01-01, the fields (2015, 0, 0) make 2014-12-31.
\<close>

theorem Date_ctor_parts_day_zero:
  "Date_ctor_parts h [Some 2015, Some 0, Some 0] = Inr (Some (ecma_UTC h 1420070400000))
   \<and> d_gmktime \<lparr>tp_year = 2015, tp_month = 0, tp_day = 0, tp_hour = 0, tp_min = 0, tp_sec = 0,
                 tp_msec = 0, tp_dayofweek = 0\<rparr> = Inr 1419984000000"
  by code_simp

text \<open>The spec's example \<^verbatim>\<open>new Date(99, 0, 1)\<close>, and an eighth argument.\<close>

lemma Date_ctor_parts_99:
  "Date_ctor_parts h [Some 99, Some 0, Some 1] = Inr (Some (ecma_UTC h 915148800000))"
  by code_simp

lemma Date_ctor_parts_8_args:
  "Date_ctor_parts h [Some 2015, Some 0, Some 1, Some 0, Some 0, Some 0, Some 0, Some 0]
     = Inl OutOfBounds"
  by code_simp

subsection \<open>The locale\<close>

lemma d_tolocalestr_final_locale:
  "lc_time (fst (d_tolocalestr lh f uninit st time))
     = (if uninit \<noteq> [] \<and> known_locale lh uninit then uninit else env_locale lh)"
  by (simp add: d_tolocalestr_def d_getcurrentlocale_def d_setlocale_def setlocale_LC_TIME_def Let_def)

text \<open>
  C8. After a locale-sensitive formatting call the \<^verbatim>\<open>LC_TIME\<close> locale of the process is the
  one from before the call. In the code the saving step copies in the wrong direction
  (from the fresh local buffer into the library's string), so the locale set at the end
  never depends on the one before the call (lemma above): a process in \<^verbatim>\<open>de_DE\<close> whose
  environment says \<^verbatim>\<open>C\<close> is left in \<^verbatim>\<open>C\<close>.
\<close>

theorem d_tolocalestr_does_not_restore:
  "lc_time (fst (d_tolocalestr
       \<lparr>env_locale = ''C'', known_locale = (\<lambda>s. s = ''C'' \<or> s = ''de_DE'')\<rparr> f ''''
       \<lparr>lc_time = ''de_DE'', lc_time_name = ''de_DE''\<rparr> 0)) = ''C''"
  by (simp add: d_tolocalestr_def d_getcurrentlocale_def d_setlocale_def setlocale_LC_TIME_def Let_def)

end

